theory Spec2Isabelle
  imports Complex_Main "HOL-Library.Multiset"
begin

section \<open>The worker pool of \<open>ot/utils.py\<close>: \<open>fun\<close> and \<open>parmap\<close>\<close>

text \<open>
  \<open>parmap\<close> starts \<open>nprocs\<close> processes that all run \<open>fun\<close> on two shared queues, feeds the
  enumerated input and one \<open>(None, None)\<close> per process through \<open>q_in\<close> (a queue of capacity 1),
  reads \<open>len(sent)\<close> results from \<open>q_out\<close>, joins the processes and returns the results
  sorted by index.  The processes run concurrently, so the program is modelled as a
  transition system: one step function per participant (\<open>fun_step\<close> for a process running
  \<open>fun\<close>, \<open>parmap_step\<close> for the caller), interleaved by an arbitrary schedule.
\<close>

subsection \<open>Values\<close>

text \<open>
  A Python value that may be \<open>None\<close> is an \<open>option\<close>: the elements of \<open>X\<close> and the payload
  field of a queue item are \<open>'a option\<close>, the index field is \<open>nat option\<close>.  A call of the
  user function either returns a value or raises.
\<close>

datatype 'b outcome = Returns 'b | Raises

type_synonym 'a item = "nat option \<times> 'a option"

subsection \<open>\<open>fun\<close>: one process\<close>

text \<open>
  \<^verbatim>\<open>
  def fun(f, q_in, q_out):
      while True:
          i, x = q_in.get()
          if i is None:
              break
          q_out.put((i, f(x)))
  \<close>
  The control points of the loop: \<open>Idle\<close> is at \<open>q_in.get()\<close>; \<open>Running i x\<close> holds the item
  \<open>(i, x)\<close> and is about to evaluate \<open>q_out.put((i, f(x)))\<close>; \<open>Terminated\<close> is after the
  \<open>break\<close>; \<open>Crashed\<close> is the process that died of the exception \<open>f\<close> raised (\<open>fun\<close> has no
  handler).  \<open>q_in.get()\<close> blocks on the empty queue: no step.
\<close>

datatype 'a worker = Idle | Running nat "'a option" | Terminated | Crashed

datatype ('a, 'b) action = Get "'a item" | Emit "nat \<times> 'b" | Fail nat

fun fun_step ::
  "('a option \<Rightarrow> 'b outcome) \<Rightarrow> 'a worker \<Rightarrow> 'a item list \<Rightarrow> (nat \<times> 'b) list \<Rightarrow>
     (('a, 'b) action \<times> 'a worker \<times> 'a item list \<times> (nat \<times> 'b) list) option" where
  "fun_step f Idle [] qo = None"
| "fun_step f Idle ((i, x) # qi) qo =
     (case i of
        None \<Rightarrow> Some (Get (i, x), Terminated, qi, qo)
      | Some j \<Rightarrow> Some (Get (i, x), Running j x, qi, qo))"
| "fun_step f (Running j x) qi qo =
     (case f x of
        Returns v \<Rightarrow> Some (Emit (j, v), Idle, qi, qo @ [(j, v)])
      | Raises \<Rightarrow> Some (Fail j, Crashed, qi, qo))"
| "fun_step f Terminated qi qo = None"
| "fun_step f Crashed qi qo = None"

text \<open>A process running alone on a given content of the queues: it steps until it is
  blocked, has terminated or has crashed.\<close>

fun busy :: "'a worker \<Rightarrow> nat" where
  "busy (Running j x) = 1"
| "busy w = 0"



subsection \<open>\<open>parmap\<close>: the caller\<close>

text \<open>
  \<^verbatim>\<open>
  def parmap(f, X, nprocs=multiprocessing.cpu_count()):
      q_in = multiprocessing.Queue(1)
      q_out = multiprocessing.Queue()
      proc = [multiprocessing.Process(target=fun, args=(f, q_in, q_out))
              for _ in range(nprocs)]
      for p in proc:
          p.daemon = True
          p.start()
      sent = [q_in.put((i, x)) for i, x in enumerate(X)]
      [q_in.put((None, None)) for _ in range(nprocs)]
      res = [q_out.get() for _ in range(len(sent))]
      [p.join() for p in proc]
      return [x for i, x in sorted(res)]
  \<close>
  The control points of the caller, one per loop, each with what is left of its iteration:
  \<open>Starting n\<close> has \<open>n\<close> processes still to start; \<open>Feeding i xs\<close> is the enumeration at index
  \<open>i\<close> with \<open>xs\<close> left; \<open>Stopping n\<close> has \<open>n\<close> of the \<open>(None, None)\<close> still to put;
  \<open>Collecting n\<close> has \<open>n\<close> results still to get; \<open>Joining k\<close> is about to join \<open>proc[k]\<close>, and
  past the last process it sorts and returns; \<open>Returned r\<close> has returned \<open>r\<close>.
\<close>

datatype ('a, 'b) coord =
    Starting nat
  | Feeding nat "'a option list"
  | Stopping nat
  | Collecting nat
  | Joining nat
  | Returned "'b list"

text \<open>The local variables of \<open>parmap\<close>.  \<open>proc\<close> holds the processes started so far;
  \<open>sent\<close> is the list of the \<open>None\<close>s that \<open>q_in.put\<close> returned.\<close>

record ('a, 'b) state =
  pc :: "('a, 'b) coord"
  q_in :: "'a item list"
  q_out :: "(nat \<times> 'b) list"
  proc :: "'a worker list"
  sent :: "unit list"
  res :: "(nat \<times> 'b) list"

datatype ('a, 'b) event =
    Started
  | Put "'a item"
  | Collected "nat \<times> 'b"
  | Joined nat
  | Ret "'b list"
  | Tau
  | By nat "('a, 'b) action"

text \<open>\<open>range(nprocs)\<close> is empty for \<open>nprocs \<le> 0\<close>: it has \<open>nat nprocs\<close> elements.\<close>

definition init :: "int \<Rightarrow> ('a, 'b) state" where
  "init nprocs =
     \<lparr>pc = Starting (nat nprocs), q_in = [], q_out = [], proc = [], sent = [], res = []\<rparr>"

text \<open>
  One step of the caller.  \<open>q_in = multiprocessing.Queue(1)\<close>: \<open>put\<close> blocks while the queue
  holds an item.  \<open>q_out\<close> is unbounded; \<open>get\<close> blocks while it is empty.  \<open>p.join()\<close> blocks
  until the process has exited, normally or by an exception.  \<open>sorted(res)\<close> compares the
  pairs by their first components and looks at the second ones only between pairs of equal
  index; the indices in \<open>res\<close> are pairwise distinct (lemma \<open>res_indices\<close> below), so the
  order is that of the indices.  Leaving a loop is a step of its own, \<open>Tau\<close>.
\<close>

definition parmap_step ::
  "'a option list \<Rightarrow> int \<Rightarrow> ('a, 'b) state \<Rightarrow> (('a, 'b) event \<times> ('a, 'b) state) option" where
  "parmap_step X nprocs s =
     (case pc s of
        Starting n \<Rightarrow>
          (case n of
             Suc m \<Rightarrow> Some (Started, s\<lparr>pc := Starting m, proc := proc s @ [Idle]\<rparr>)
           | 0 \<Rightarrow> Some (Tau, s\<lparr>pc := Feeding 0 X\<rparr>))
      | Feeding i xs \<Rightarrow>
          (case xs of
             x # xs' \<Rightarrow>
               if length (q_in s) < 1
               then Some (Put (Some i, x),
                          s\<lparr>pc := Feeding (Suc i) xs', q_in := q_in s @ [(Some i, x)],
                            sent := sent s @ [()]\<rparr>)
               else None
           | [] \<Rightarrow> Some (Tau, s\<lparr>pc := Stopping (nat nprocs)\<rparr>))
      | Stopping n \<Rightarrow>
          (case n of
             Suc m \<Rightarrow>
               if length (q_in s) < 1
               then Some (Put (None, None),
                          s\<lparr>pc := Stopping m, q_in := q_in s @ [(None, None)]\<rparr>)
               else None
           | 0 \<Rightarrow> Some (Tau, s\<lparr>pc := Collecting (length (sent s))\<rparr>))
      | Collecting n \<Rightarrow>
          (case n of
             Suc m \<Rightarrow>
               (case q_out s of
                  [] \<Rightarrow> None
                | r # rs \<Rightarrow>
                    Some (Collected r, s\<lparr>pc := Collecting m, q_out := rs, res := res s @ [r]\<rparr>))
           | 0 \<Rightarrow> Some (Tau, s\<lparr>pc := Joining 0\<rparr>))
      | Joining k \<Rightarrow>
          if k < length (proc s)
          then (if proc s ! k = Terminated \<or> proc s ! k = Crashed
                then Some (Joined k, s\<lparr>pc := Joining (Suc k)\<rparr>)
                else None)
          else Some (Ret (map snd (sort_key fst (res s))),
                     s\<lparr>pc := Returned (map snd (sort_key fst (res s)))\<rparr>)
      | Returned r \<Rightarrow> None)"

text \<open>One step of process \<open>k\<close>: \<open>fun_step\<close> on the shared queues.\<close>

definition worker_step ::
  "('a option \<Rightarrow> 'b outcome) \<Rightarrow> ('a, 'b) state \<Rightarrow> nat \<Rightarrow>
     (('a, 'b) event \<times> ('a, 'b) state) option" where
  "worker_step f s k =
     (if k < length (proc s)
      then (case fun_step f (proc s ! k) (q_in s) (q_out s) of
              None \<Rightarrow> None
            | Some (a, w, qi, qo) \<Rightarrow>
                Some (By k a, s\<lparr>proc := (proc s)[k := w], q_in := qi, q_out := qo\<rparr>))
      else None)"

subsection \<open>Schedules\<close>

text \<open>
  A schedule names who moves next.  \<open>step\<close> is \<open>None\<close> when that participant is blocked or
  has finished.  \<open>exec\<close> runs a schedule and records the events; \<open>run\<close> does so from the
  start of the call.  The interleavings of the program are the schedules \<open>run\<close> accepts.
\<close>

datatype agent = Coordinator | Worker nat

definition step ::
  "('a option \<Rightarrow> 'b outcome) \<Rightarrow> 'a option list \<Rightarrow> int \<Rightarrow> ('a, 'b) state \<Rightarrow> agent \<Rightarrow>
     (('a, 'b) event \<times> ('a, 'b) state) option" where
  "step f X nprocs s a =
     (case a of Coordinator \<Rightarrow> parmap_step X nprocs s | Worker k \<Rightarrow> worker_step f s k)"

fun exec ::
  "('a option \<Rightarrow> 'b outcome) \<Rightarrow> 'a option list \<Rightarrow> int \<Rightarrow>
     ('a, 'b) event list \<times> ('a, 'b) state \<Rightarrow> agent list \<Rightarrow>
     (('a, 'b) event list \<times> ('a, 'b) state) option" where
  "exec f X nprocs c [] = Some c"
| "exec f X nprocs c (a # as) =
     (case step f X nprocs (snd c) a of
        None \<Rightarrow> None
      | Some (e, s') \<Rightarrow> exec f X nprocs (fst c @ [e], s') as)"

definition run ::
  "('a option \<Rightarrow> 'b outcome) \<Rightarrow> 'a option list \<Rightarrow> int \<Rightarrow> agent list \<Rightarrow>
     (('a, 'b) event list \<times> ('a, 'b) state) option" where
  "run f X nprocs sch = exec f X nprocs ([], init nprocs) sch"

subsection \<open>The sequential map\<close>

text \<open>
  The map that the single-process pool is compared with, \<^verbatim>\<open>[f(x) for x in X]\<close>: it
  evaluates \<open>f\<close> on the elements from left to right and stops at the first call that raises.
\<close>

fun seq_map :: "('a option \<Rightarrow> 'b outcome) \<Rightarrow> 'a option list \<Rightarrow> 'b list outcome" where
  "seq_map f [] = Returns []"
| "seq_map f (x # xs) =
     (case f x of
        Raises \<Rightarrow> Raises
      | Returns v \<Rightarrow> (case seq_map f xs of Raises \<Rightarrow> Raises | Returns vs \<Rightarrow> Returns (v # vs)))"

section \<open>\<open>cost_normalization\<close>\<close>

text \<open>
  \<^verbatim>\<open>
  def cost_normalization(C, norm=None):
      if norm == "median":
          C /= float(np.median(C))
      elif norm == "max":
          C /= float(np.max(C))
      elif norm == "log":
          C = np.log(1 + C)
      elif norm == "loglog":
          C = np.log(1 + np.log(1 + C))
      return C
  \<close>
  Arrays are objects: the heap is the list of the arrays allocated so far and a reference is
  an index into it.  \<open>C /= r\<close> writes the quotient into the array \<open>C\<close> refers to;
  \<open>1 + C\<close> and \<open>np.log\<close> each allocate a new array, appended to the heap, and \<open>C = ...\<close>
  rebinds the local name only.  The numpy functions are not part of the repository: they
  are parameters, each of which may raise (an empty array has no maximum, an integer array
  refuses the in-place division by a float).  An exception leaves \<open>cost_normalization\<close>
  before anything is written.  The argument \<open>C\<close> refers to an existing array,
  \<open>C < length h\<close>.  The parameter \<open>norm\<close> is called \<open>nrm\<close> here; it is \<open>None\<close> or a
  string.
\<close>

record ('m, 'r) numpy =
  np_median :: "'m \<Rightarrow> 'r outcome"
  np_max :: "'m \<Rightarrow> 'r outcome"
  np_idiv :: "'m \<Rightarrow> 'r \<Rightarrow> 'm outcome"
  np_add1 :: "'m \<Rightarrow> 'm outcome"
  np_log :: "'m \<Rightarrow> 'm outcome"

definition bind :: "'a outcome \<Rightarrow> ('a \<Rightarrow> 'b outcome) \<Rightarrow> 'b outcome" where
  "bind m k = (case m of Raises \<Rightarrow> Raises | Returns v \<Rightarrow> k v)"

definition cost_normalization ::
  "('m, 'r) numpy \<Rightarrow> 'm list \<Rightarrow> nat \<Rightarrow> string option \<Rightarrow> ('m list \<times> nat) outcome" where
  "cost_normalization np h C nrm =
     (if nrm = Some ''median'' then
        bind (np_median np (h ! C)) (\<lambda>m.
        bind (np_idiv np (h ! C) m) (\<lambda>c. Returns (h[C := c], C)))
      else if nrm = Some ''max'' then
        bind (np_max np (h ! C)) (\<lambda>m.
        bind (np_idiv np (h ! C) m) (\<lambda>c. Returns (h[C := c], C)))
      else if nrm = Some ''log'' then
        bind (np_add1 np (h ! C)) (\<lambda>t.
        bind (np_log np t) (\<lambda>c. Returns (h @ [t, c], Suc (length h))))
      else if nrm = Some ''loglog'' then
        bind (np_add1 np (h ! C)) (\<lambda>t.
        bind (np_log np t) (\<lambda>u.
        bind (np_add1 np u) (\<lambda>w.
        bind (np_log np w) (\<lambda>c. Returns (h @ [t, u, w, c], length h + 3)))))
      else Returns (h, C))"

section \<open>Concrete inputs\<close>

text \<open>
  Functions, schedules and a numpy over exact reals (arrays as flat lists) on which the
  definitions are evaluated.
  \<open>sched0\<close> lets process 1 finish the items 1 and 2 before process 0 finishes item 0;
  \<open>sched1\<close> completes the items in order; \<open>sched_one\<close> and \<open>sched_none\<close> drive a single
  process over two and three items;
  \<open>sched_fail\<close> runs into the call of \<open>half\<close> that raises.  \<open>q_order\<close> reads off a trace
  the order in which the results reached \<open>q_out\<close>.
\<close>

definition sq :: "nat option \<Rightarrow> nat outcome" where
  "sq x = (case x of None \<Rightarrow> Returns 0 | Some a \<Rightarrow> Returns (a * a))"

definition half :: "nat option \<Rightarrow> nat outcome" where
  "half x = (case x of None \<Rightarrow> Raises | Some a \<Rightarrow> Returns (a div 2))"

definition unit_fun :: "unit option \<Rightarrow> unit outcome" where
  "unit_fun x = Returns ()"

definition sched0 :: "agent list" where
  "sched0 = [Coordinator, Coordinator, Coordinator, Coordinator, Worker 0, Coordinator,
     Worker 1, Worker 1, Coordinator, Worker 1, Worker 1, Worker 0, Coordinator, Coordinator,
     Worker 0, Coordinator, Worker 1, Coordinator, Coordinator, Coordinator, Coordinator,
     Coordinator, Coordinator, Coordinator, Coordinator]"

definition sched1 :: "agent list" where
  "sched1 = [Coordinator, Coordinator, Coordinator, Coordinator, Worker 0, Worker 0,
     Coordinator, Worker 1, Worker 1, Coordinator, Worker 0, Worker 0, Coordinator, Coordinator,
     Worker 0, Coordinator, Worker 1, Coordinator, Coordinator, Coordinator, Coordinator,
     Coordinator, Coordinator, Coordinator, Coordinator]"

definition sched_one :: "agent list" where
  "sched_one = [Coordinator, Coordinator, Coordinator, Worker 0, Coordinator, Worker 0,
     Worker 0, Worker 0, Coordinator, Coordinator, Worker 0, Coordinator, Coordinator,
     Coordinator, Coordinator, Coordinator, Coordinator]"

definition sched_none :: "agent list" where
  "sched_none = [Coordinator, Coordinator, Coordinator, Worker 0, Worker 0, Coordinator,
     Worker 0, Worker 0, Coordinator, Worker 0, Worker 0, Coordinator, Coordinator, Worker 0,
     Coordinator, Coordinator, Coordinator, Coordinator, Coordinator, Coordinator, Coordinator]"

definition sched_fail :: "agent list" where
  "sched_fail = [Coordinator, Coordinator, Coordinator, Worker 0, Worker 0, Coordinator,
     Worker 0, Worker 0, Coordinator, Coordinator, Coordinator, Coordinator]"

fun q_order :: "('a, 'b) event list \<Rightarrow> nat list" where
  "q_order [] = []"
| "q_order (By k (Emit r) # es) = fst r # q_order es"
| "q_order (e # es) = q_order es"

definition exact_median :: "real list \<Rightarrow> real outcome" where
  "exact_median xs =
     (if xs = [] then Raises
      else let s = sort xs; n = length xs
           in Returns (if even n then (s ! (n div 2 - 1) + s ! (n div 2)) / 2 else s ! (n div 2)))"

definition exact_numpy :: "(real list, real) numpy" where
  "exact_numpy =
     \<lparr>np_median = exact_median,
      np_max = (\<lambda>xs. if xs = [] then Raises else Returns (fold max xs (hd xs))),
      np_idiv = (\<lambda>xs r. Returns (map (\<lambda>x. x / r) xs)),
      np_add1 = (\<lambda>xs. Returns (map (\<lambda>x. 1 + x) xs)),
      np_log = (\<lambda>xs. Returns (map ln xs))\<rparr>"

section \<open>Reachable states and their invariants\<close>

text \<open>
  \<open>reach f X n es s\<close>: some schedule leads from the start of \<open>parmap(f, X, n)\<close> to the
  state \<open>s\<close> with the trace \<open>es\<close>.  The other definitions state what holds in every such
  state:
  \<^item> \<open>phase\<close> ties the local variables to the control point of the caller;
  \<^item> \<open>held\<close> is the multiset of the indices that are in \<open>q_in\<close>, with a process, in
    \<open>q_out\<close> or in \<open>res\<close>; together with the indices whose call raised (\<open>failed\<close>) it is
    \<open>{0, ..., len(sent) - 1}\<close>;
  \<^item> \<open>payload\<close> says that index \<open>j\<close> travels with \<open>X[j]\<close> and comes back with \<open>f(X[j])\<close>;
  \<^item> \<open>gone\<close>, \<open>qstop\<close> and \<open>owed\<close> count the \<open>(None, None)\<close> items: taken by a process,
    waiting in \<open>q_in\<close>, still to be put;
  \<^item> \<open>joined\<close> says that every process the caller has joined has exited;
  \<^item> \<open>fuel\<close> bounds the number of steps that are left;
  \<^item> \<open>acts k es\<close> is what process \<open>k\<close> did in the trace \<open>es\<close>, and \<open>stopped_once\<close> says
    that a process has taken a \<open>(None, None)\<close> exactly when it has terminated, as its last
    action.
\<close>

definition reach ::
  "('a option \<Rightarrow> 'b outcome) \<Rightarrow> 'a option list \<Rightarrow> int \<Rightarrow> ('a, 'b) event list \<Rightarrow>
     ('a, 'b) state \<Rightarrow> bool" where
  "reach f X n es s \<longleftrightarrow> (\<exists>sch. run f X n sch = Some (es, s))"

definition phase :: "'a option list \<Rightarrow> int \<Rightarrow> ('a, 'b) state \<Rightarrow> bool" where
  "phase X n s =
     (case pc s of
        Starting m \<Rightarrow> length (proc s) + m = nat n \<and> sent s = [] \<and> res s = []
      | Feeding i xs \<Rightarrow> length (proc s) = nat n \<and> i = length (sent s) \<and> xs = drop i X \<and>
          i \<le> length X \<and> res s = []
      | Stopping m \<Rightarrow> length (proc s) = nat n \<and> length (sent s) = length X \<and> m \<le> nat n \<and>
          res s = []
      | Collecting m \<Rightarrow> length (proc s) = nat n \<and> length (sent s) = length X \<and>
          m + length (res s) = length X
      | Joining k \<Rightarrow> length (proc s) = nat n \<and> length (sent s) = length X \<and>
          length (res s) = length X
      | Returned r \<Rightarrow> length (proc s) = nat n \<and> length (sent s) = length X \<and>
          length (res s) = length X \<and> r = map snd (sort_key fst (res s)))"

fun widx :: "'a worker \<Rightarrow> nat multiset" where
  "widx (Running j x) = {#j#}"
| "widx w = {#}"

fun qidx :: "'a item \<Rightarrow> nat multiset" where
  "qidx (Some j, x) = {#j#}"
| "qidx (None, x) = {#}"

fun failed :: "('a, 'b) event \<Rightarrow> nat multiset" where
  "failed (By k (Fail j)) = {#j#}"
| "failed e = {#}"

definition held :: "('a, 'b) state \<Rightarrow> nat multiset" where
  "held s = sum_list (map widx (proc s)) + sum_list (map qidx (q_in s)) +
     mset (map fst (q_out s)) + mset (map fst (res s))"

definition payload ::
  "('a option \<Rightarrow> 'b outcome) \<Rightarrow> 'a option list \<Rightarrow> ('a, 'b) event list \<Rightarrow> ('a, 'b) state \<Rightarrow> bool"
  where
  "payload f X es s \<longleftrightarrow>
     (\<forall>j x. (Some j, x) \<in> set (q_in s) \<longrightarrow> j < length X \<and> x = X ! j) \<and>
     (\<forall>j x. Running j x \<in> set (proc s) \<longrightarrow> j < length X \<and> x = X ! j) \<and>
     (\<forall>j v. (j, v) \<in> set (q_out s) \<union> set (res s) \<longrightarrow> j < length X \<and> f (X ! j) = Returns v) \<and>
     (\<forall>k j. By k (Fail j) \<in> set es \<longrightarrow> j < length X \<and> f (X ! j) = Raises)"

fun gone :: "'a worker \<Rightarrow> nat" where
  "gone Terminated = 1"
| "gone w = 0"

fun qstop :: "'a item \<Rightarrow> nat" where
  "qstop (None, x) = 1"
| "qstop (Some j, x) = 0"

fun owed :: "int \<Rightarrow> ('a, 'b) coord \<Rightarrow> nat" where
  "owed n (Starting m) = nat n"
| "owed n (Feeding i xs) = nat n"
| "owed n (Stopping m) = m"
| "owed n c = 0"

definition finished :: "'a worker \<Rightarrow> bool" where
  "finished w \<longleftrightarrow> w = Terminated \<or> w = Crashed"

definition joined :: "('a, 'b) state \<Rightarrow> bool" where
  "joined s =
     (case pc s of
        Joining k \<Rightarrow> k \<le> length (proc s) \<and> (\<forall>j<k. finished (proc s ! j))
      | Returned r \<Rightarrow> (\<forall>j<length (proc s). finished (proc s ! j))
      | _ \<Rightarrow> True)"

definition rest :: "'a option list \<Rightarrow> int \<Rightarrow> ('a, 'b) state \<Rightarrow> nat" where
  "rest X n s =
     (case pc s of
        Starting m \<Rightarrow> 2 * m + length (proc s) + 4 * length X + 3 * nat n + length (sent s) + 5
      | Feeding i xs \<Rightarrow> 4 * length xs + 3 * nat n + length (sent s) + length (proc s) + 4
      | Stopping m \<Rightarrow> 3 * m + length (sent s) + length (proc s) + 3
      | Collecting m \<Rightarrow> m + length (proc s) + 2
      | Joining k \<Rightarrow> (length (proc s) - k) + 1
      | Returned r \<Rightarrow> 0)"

definition fuel :: "'a option list \<Rightarrow> int \<Rightarrow> ('a, 'b) state \<Rightarrow> nat" where
  "fuel X n s = rest X n s + 2 * length (q_in s) + sum_list (map busy (proc s))"

fun acts :: "nat \<Rightarrow> ('a, 'b) event list \<Rightarrow> ('a, 'b) action list" where
  "acts k [] = []"
| "acts k (By k' a # es) = (if k' = k then a # acts k es else acts k es)"
| "acts k (e # es) = acts k es"

definition stopped_once :: "('a, 'b) event list \<Rightarrow> ('a, 'b) state \<Rightarrow> bool" where
  "stopped_once es s \<longleftrightarrow>
     (\<forall>k. if k < length (proc s)
          then (if proc s ! k = Terminated
                then (\<exists>as. acts k es = as @ [Get (None, None)] \<and> Get (None, None) \<notin> set as)
                else Get (None, None) \<notin> set (acts k es))
          else acts k es = [])"

section \<open>Lemmas\<close>

text \<open>The steps by cases, induction over the reachable states, and the invariants one by
  one; then progress (a state that has not returned has a step) and the bound on the length
  of a schedule.\<close>

lemma parmap_step_cases [consumes 1,
    case_names start started feed fed stop stopped collect collected join ret]:
  assumes "parmap_step X n s = Some (e, s')"
  obtains
    (start) m where "pc s = Starting (Suc m)" "e = Started"
      "s' = s\<lparr>pc := Starting m, proc := proc s @ [Idle]\<rparr>"
  | (started) "pc s = Starting 0" "e = Tau" "s' = s\<lparr>pc := Feeding 0 X\<rparr>"
  | (feed) i x xs where "pc s = Feeding i (x # xs)" "q_in s = []" "e = Put (Some i, x)"
      "s' = s\<lparr>pc := Feeding (Suc i) xs, q_in := [(Some i, x)], sent := sent s @ [()]\<rparr>"
  | (fed) i where "pc s = Feeding i []" "e = Tau" "s' = s\<lparr>pc := Stopping (nat n)\<rparr>"
  | (stop) m where "pc s = Stopping (Suc m)" "q_in s = []" "e = Put (None, None)"
      "s' = s\<lparr>pc := Stopping m, q_in := [(None, None)]\<rparr>"
  | (stopped) "pc s = Stopping 0" "e = Tau" "s' = s\<lparr>pc := Collecting (length (sent s))\<rparr>"
  | (collect) m r rs where "pc s = Collecting (Suc m)" "q_out s = r # rs" "e = Collected r"
      "s' = s\<lparr>pc := Collecting m, q_out := rs, res := res s @ [r]\<rparr>"
  | (collected) "pc s = Collecting 0" "e = Tau" "s' = s\<lparr>pc := Joining 0\<rparr>"
  | (join) k where "pc s = Joining k" "k < length (proc s)"
      "proc s ! k = Terminated \<or> proc s ! k = Crashed" "e = Joined k"
      "s' = s\<lparr>pc := Joining (Suc k)\<rparr>"
  | (ret) k where "pc s = Joining k" "\<not> k < length (proc s)"
      "e = Ret (map snd (sort_key fst (res s)))"
      "s' = s\<lparr>pc := Returned (map snd (sort_key fst (res s)))\<rparr>"
  using assms unfolding parmap_step_def
  by (auto split: coord.splits nat.splits list.splits if_splits)

lemma worker_step_cases [consumes 1, case_names get_stop get_work emit fail]:
  assumes "worker_step f s k = Some (e, s')"
  obtains
    (get_stop) x qi where "k < length (proc s)" "proc s ! k = Idle" "q_in s = (None, x) # qi"
      "e = By k (Get (None, x))" "s' = s\<lparr>proc := (proc s)[k := Terminated], q_in := qi\<rparr>"
  | (get_work) j x qi where "k < length (proc s)" "proc s ! k = Idle"
      "q_in s = (Some j, x) # qi" "e = By k (Get (Some j, x))"
      "s' = s\<lparr>proc := (proc s)[k := Running j x], q_in := qi\<rparr>"
  | (emit) j x v where "k < length (proc s)" "proc s ! k = Running j x" "f x = Returns v"
      "e = By k (Emit (j, v))"
      "s' = s\<lparr>proc := (proc s)[k := Idle], q_out := q_out s @ [(j, v)]\<rparr>"
  | (fail) j x where "k < length (proc s)" "proc s ! k = Running j x" "f x = Raises"
      "e = By k (Fail j)" "s' = s\<lparr>proc := (proc s)[k := Crashed]\<rparr>"
proof -
  from assms have k: "k < length (proc s)"
    by (simp add: worker_step_def split: if_splits)
  show thesis
  proof (cases "proc s ! k")
    case Idle
    with assms k that(1,2) show thesis
      by (cases "q_in s") (auto simp: worker_step_def split: option.splits)
  next
    case (Running j x)
    with assms k that(3,4) show thesis
      by (cases "f x") (auto simp: worker_step_def)
  next
    case Terminated
    with assms k show thesis by (simp add: worker_step_def)
  next
    case Crashed
    with assms k show thesis by (simp add: worker_step_def)
  qed
qed

lemma exec_invariant:
  assumes "exec f X n c sch = Some c'" and "I (fst c) (snd c)"
    and "\<And>es s a e s'. I es s \<Longrightarrow> step f X n s a = Some (e, s') \<Longrightarrow> I (es @ [e]) s'"
  shows "I (fst c') (snd c')"
  using assms(1,2)
proof (induction sch arbitrary: c)
  case Nil
  then show ?case by simp
next
  case (Cons a sch)
  then show ?case
    by (auto split: option.splits dest: assms(3))
qed

lemma exec_append:
  "exec f X n c (as @ bs) =
     (case exec f X n c as of None \<Rightarrow> None | Some c' \<Rightarrow> exec f X n c' bs)"
  by (induction as arbitrary: c) (auto split: option.splits)

lemma reach_init: "reach f X n [] (init n)"
  unfolding reach_def run_def by (rule exI [of _ "[]"]) simp

lemma reach_step:
  assumes "reach f X n es s" and "step f X n s a = Some (e, s')"
  shows "reach f X n (es @ [e]) s'"
proof -
  from assms(1) obtain sch where "run f X n sch = Some (es, s)"
    by (auto simp: reach_def)
  with assms(2) have "run f X n (sch @ [a]) = Some (es @ [e], s')"
    by (simp add: run_def exec_append)
  then show ?thesis unfolding reach_def by blast
qed

lemma exec_reach:
  assumes "exec f X n c sch = Some c'" and "reach f X n (fst c) (snd c)"
  shows "reach f X n (fst c') (snd c')"
  using assms by (rule exec_invariant) (rule reach_step)

lemma reach_induct [consumes 1, case_names init step]:
  assumes "reach f X n es s" and "I [] (init n)"
    and "\<And>es s a e s'. reach f X n es s \<Longrightarrow> I es s \<Longrightarrow> step f X n s a = Some (e, s')
           \<Longrightarrow> I (es @ [e]) s'"
  shows "I es s"
proof -
  from assms(1) obtain sch where r: "exec f X n ([], init n) sch = Some (es, s)"
    by (auto simp: reach_def run_def)
  have "reach f X n (fst (es, s)) (snd (es, s)) \<and> I (fst (es, s)) (snd (es, s))"
    using r
  proof (rule exec_invariant [where I = "\<lambda>es s. reach f X n es s \<and> I es s"])
    show "reach f X n (fst ([], init n)) (snd ([], init n)) \<and> I (fst ([], init n)) (snd ([], init n))"
      using assms(2) by (simp add: reach_init)
  next
    fix es s a e s'
    assume "reach f X n es s \<and> I es s" and "step f X n s a = Some (e, s')"
    then show "reach f X n (es @ [e]) s' \<and> I (es @ [e]) s'"
      using assms(3) reach_step by blast
  qed
  then show ?thesis by simp
qed

lemma step_cases [consumes 1, case_names start started feed fed stop stopped collect
    collected join ret get_stop get_work emit fail]:
  assumes "step f X n s a = Some (e, s')"
  obtains
    (start) m where "pc s = Starting (Suc m)" "e = Started"
      "s' = s\<lparr>pc := Starting m, proc := proc s @ [Idle]\<rparr>"
  | (started) "pc s = Starting 0" "e = Tau" "s' = s\<lparr>pc := Feeding 0 X\<rparr>"
  | (feed) i x xs where "pc s = Feeding i (x # xs)" "q_in s = []" "e = Put (Some i, x)"
      "s' = s\<lparr>pc := Feeding (Suc i) xs, q_in := [(Some i, x)], sent := sent s @ [()]\<rparr>"
  | (fed) i where "pc s = Feeding i []" "e = Tau" "s' = s\<lparr>pc := Stopping (nat n)\<rparr>"
  | (stop) m where "pc s = Stopping (Suc m)" "q_in s = []" "e = Put (None, None)"
      "s' = s\<lparr>pc := Stopping m, q_in := [(None, None)]\<rparr>"
  | (stopped) "pc s = Stopping 0" "e = Tau" "s' = s\<lparr>pc := Collecting (length (sent s))\<rparr>"
  | (collect) m r rs where "pc s = Collecting (Suc m)" "q_out s = r # rs" "e = Collected r"
      "s' = s\<lparr>pc := Collecting m, q_out := rs, res := res s @ [r]\<rparr>"
  | (collected) "pc s = Collecting 0" "e = Tau" "s' = s\<lparr>pc := Joining 0\<rparr>"
  | (join) k where "pc s = Joining k" "k < length (proc s)"
      "proc s ! k = Terminated \<or> proc s ! k = Crashed" "e = Joined k"
      "s' = s\<lparr>pc := Joining (Suc k)\<rparr>"
  | (ret) k where "pc s = Joining k" "\<not> k < length (proc s)"
      "e = Ret (map snd (sort_key fst (res s)))"
      "s' = s\<lparr>pc := Returned (map snd (sort_key fst (res s)))\<rparr>"
  | (get_stop) k x qi where "k < length (proc s)" "proc s ! k = Idle"
      "q_in s = (None, x) # qi"
      "e = By k (Get (None, x))" "s' = s\<lparr>proc := (proc s)[k := Terminated], q_in := qi\<rparr>"
  | (get_work) k j x qi where "k < length (proc s)" "proc s ! k = Idle"
      "q_in s = (Some j, x) # qi" "e = By k (Get (Some j, x))"
      "s' = s\<lparr>proc := (proc s)[k := Running j x], q_in := qi\<rparr>"
  | (emit) k j x v where "k < length (proc s)" "proc s ! k = Running j x" "f x = Returns v"
      "e = By k (Emit (j, v))"
      "s' = s\<lparr>proc := (proc s)[k := Idle], q_out := q_out s @ [(j, v)]\<rparr>"
  | (fail) k j x where "k < length (proc s)" "proc s ! k = Running j x" "f x = Raises"
      "e = By k (Fail j)" "s' = s\<lparr>proc := (proc s)[k := Crashed]\<rparr>"
proof (cases a)
  case Coordinator
  with assms have "parmap_step X n s = Some (e, s')" by (simp add: step_def)
  then show thesis
  proof (cases rule: parmap_step_cases)
    case (start m) then show ?thesis by (rule that(1))
  next
    case started then show ?thesis by (rule that(2))
  next
    case (feed i x xs) then show ?thesis by (rule that(3))
  next
    case (fed i) then show ?thesis by (rule that(4))
  next
    case (stop m) then show ?thesis by (rule that(5))
  next
    case stopped then show ?thesis by (rule that(6))
  next
    case (collect m r rs) then show ?thesis by (rule that(7))
  next
    case collected then show ?thesis by (rule that(8))
  next
    case (join k) then show ?thesis by (rule that(9))
  next
    case (ret k) then show ?thesis by (rule that(10))
  qed
next
  case (Worker k)
  with assms have "worker_step f s k = Some (e, s')" by (simp add: step_def)
  then show thesis
  proof (cases rule: worker_step_cases)
    case (get_stop x qi) then show ?thesis by (rule that(11))
  next
    case (get_work j x qi) then show ?thesis by (rule that(12))
  next
    case (emit j x v) then show ?thesis by (rule that(13))
  next
    case (fail j x) then show ?thesis by (rule that(14))
  qed
qed

lemma drop_Cons_conv: "x # xs = drop i X \<Longrightarrow> i < length X \<and> X ! i = x \<and> drop (Suc i) X = xs"
  by (metis Cons_nth_drop_Suc drop_all list.distinct(1) list.inject not_le)

lemma phase_cong:
  "pc s' = pc s \<Longrightarrow> length (proc s') = length (proc s) \<Longrightarrow> sent s' = sent s \<Longrightarrow>
     res s' = res s \<Longrightarrow> phase X n s' = phase X n s"
  by (cases "pc s") (simp_all add: phase_def)

lemma reach_phase:
  assumes "reach f X n es s"
  shows "phase X n s"
  using assms
proof (induction rule: reach_induct)
  case init
  show ?case by (simp add: phase_def init_def)
next
  case (step es s a e s')
  from step.hyps(2) show ?case
  proof (cases rule: step_cases)
    case (feed i x xs)
    with step.IH show ?thesis by (auto simp: phase_def dest: drop_Cons_conv)
  next
    case (fed i)
    with step.IH show ?thesis by (simp add: phase_def)
  next
    case (get_stop k x qi)
    then have "phase X n s' = phase X n s" by (intro phase_cong) simp_all
    with step.IH show ?thesis by simp
  next
    case (get_work k j x qi)
    then have "phase X n s' = phase X n s" by (intro phase_cong) simp_all
    with step.IH show ?thesis by simp
  next
    case (emit k j x v)
    then have "phase X n s' = phase X n s" by (intro phase_cong) simp_all
    with step.IH show ?thesis by simp
  next
    case (fail k j x)
    then have "phase X n s' = phase X n s" by (intro phase_cong) simp_all
    with step.IH show ?thesis by simp
  qed (use step.IH in \<open>simp_all add: phase_def\<close>)
qed

lemma sum_list_map_update:
  fixes g :: "'c \<Rightarrow> 'd::comm_monoid_add"
  shows "k < length ws \<Longrightarrow>
    sum_list (map g (ws[k := w])) + g (ws ! k) = sum_list (map g ws) + g w"
proof (induction ws arbitrary: k)
  case Nil
  then show ?case by simp
next
  case (Cons a ws)
  show ?case
  proof (cases k)
    case 0
    then show ?thesis by (simp add: ac_simps)
  next
    case (Suc k')
    with Cons.prems have "k' < length ws" by simp
    from Cons.IH [OF this] Suc show ?thesis
      by (simp add: add.assoc)
  qed
qed

lemma reach_held:
  assumes "reach f X n es s"
  shows "held s + sum_list (map failed es) = mset [0..<length (sent s)]"
  using assms
proof (induction rule: reach_induct)
  case init
  show ?case by (simp add: held_def init_def)
next
  case (step es s a e s')
  note upd = sum_list_map_update [where g = widx and ws = "proc s"]
  from step.hyps(2) show ?case
  proof (cases rule: step_cases)
    case (feed i x xs)
    moreover from step.hyps(1) have "phase X n s" by (rule reach_phase)
    ultimately show ?thesis using step.IH by (simp add: held_def phase_def)
  next
    case (get_stop k x qi)
    with upd [of k Terminated] step.IH show ?thesis by (simp add: held_def)
  next
    case (get_work k j x qi)
    with upd [of k "Running j x"] step.IH show ?thesis by (simp add: held_def)
  next
    case (emit k j x v)
    with upd [of k Idle, symmetric] step.IH show ?thesis by (simp add: held_def)
  next
    case (fail k j x)
    with upd [of k Crashed, symmetric] step.IH show ?thesis by (simp add: held_def)
  qed (use step.IH in \<open>simp_all add: held_def\<close>)
qed

lemma in_set_updateD: "x \<in> set (ws[k := w]) \<Longrightarrow> x = w \<or> x \<in> set ws"
  using set_update_subset_insert [of ws k w] by auto

lemma reach_payload:
  assumes "reach f X n es s"
  shows "payload f X es s"
  using assms
proof (induction rule: reach_induct)
  case init
  show ?case by (simp add: payload_def init_def)
next
  case (step es s a e s')
  from step.hyps(2) show ?case
  proof (cases rule: step_cases)
    case (feed i x xs)
    moreover from step.hyps(1) have "phase X n s" by (rule reach_phase)
    ultimately show ?thesis using step.IH
      by (auto simp: payload_def phase_def dest: drop_Cons_conv)
  next
    case (get_stop k x qi)
    with step.IH show ?thesis
      by (auto simp: payload_def dest!: in_set_updateD)
  next
    case (get_work k j x qi)
    with step.IH show ?thesis
      by (auto simp: payload_def dest!: in_set_updateD)
  next
    case (emit k j x v)
    moreover from emit have "Running j x \<in> set (proc s)" by (metis nth_mem)
    ultimately show ?thesis using step.IH
      by (auto simp: payload_def dest!: in_set_updateD)
  next
    case (fail k j x)
    moreover from fail have "Running j x \<in> set (proc s)" by (metis nth_mem)
    ultimately show ?thesis using step.IH
      by (auto simp: payload_def dest!: in_set_updateD)
  qed (use step.IH in \<open>auto simp: payload_def\<close>)
qed

lemma widx_empty: "sum_list (map widx ws) = {#} \<Longrightarrow> Running j x \<notin> set ws"
  by (induction ws) auto

lemma qidx_empty: "sum_list (map qidx q) = {#} \<Longrightarrow> (Some j, x) \<notin> set q"
  by (induction q) auto

lemma failed_empty: "sum_list (map failed es) = {#} \<Longrightarrow> By k (Fail j) \<notin> set es"
  by (induction es) auto

lemma reach_all_collected:
  assumes "reach f X n es s" and "length (res s) = length (sent s)"
  shows "sum_list (map widx (proc s)) = {#}" "sum_list (map qidx (q_in s)) = {#}"
    "q_out s = []" "sum_list (map failed es) = {#}"
    "mset (map fst (res s)) = mset [0..<length (sent s)]"
proof -
  let ?A = "sum_list (map widx (proc s))" and ?B = "sum_list (map qidx (q_in s))"
  let ?F = "sum_list (map failed es)"
  have eq: "held s + ?F = mset [0..<length (sent s)]"
    using assms(1) by (rule reach_held)
  have "size (held s + ?F) = length (sent s)"
    unfolding eq by simp
  then have "size ?A + size ?B + length (q_out s) + size ?F = 0"
    using assms(2) by (simp add: held_def del: size_multiset_sum_list)
  then show a: "?A = {#}" and b: "?B = {#}" and c: "q_out s = []" and d: "?F = {#}"
    by simp_all
  from eq show "mset (map fst (res s)) = mset [0..<length (sent s)]"
    unfolding held_def a b c d by simp
qed

lemma sorted_indices:
  assumes "mset (map fst rs) = mset [0..<N]"
  shows "map fst (sort_key fst rs) = [0..<N]"
proof -
  have "mset (map fst (sort_key fst rs)) = mset [0..<N]"
    using assms by simp
  moreover have "sorted (map fst (sort_key fst rs))"
    by (rule sorted_sort_key)
  ultimately have "sort [0..<N] = map fst (sort_key fst rs)"
    by (rule properties_for_sort)
  then show ?thesis by simp
qed

lemma reach_returned:
  assumes "reach f X n es s" and "pc s = Returned r"
  shows "map f X = map Returns r"
proof -
  let ?ss = "sort_key fst (res s)"
  from assms have ph: "length (sent s) = length X" "length (res s) = length X"
    "r = map snd ?ss"
    using reach_phase [of f X n es s] by (simp_all add: phase_def)
  then have "mset (map fst (res s)) = mset [0..<length X]"
    using reach_all_collected(5) [OF assms(1)] by simp
  then have idx: "map fst ?ss = [0..<length X]"
    by (rule sorted_indices)
  have pl: "payload f X es s"
    using assms(1) by (rule reach_payload)
  show ?thesis
  proof (rule nth_equalityI)
    show "length (map f X) = length (map Returns r)"
      using ph by simp
  next
    fix i
    assume "i < length (map f X)"
    then have i: "i < length X" by simp
    then have i': "i < length ?ss" using ph by simp
    from idx i have "fst (?ss ! i) = i"
      by (metis add_0 i' nth_map nth_upt)
    moreover have "?ss ! i \<in> set (res s)"
      using i' by (metis nth_mem set_sort)
    ultimately have "(i, snd (?ss ! i)) \<in> set (res s)"
      by (metis prod.collapse)
    with pl have "f (X ! i) = Returns (snd (?ss ! i))"
      unfolding payload_def by blast
    then show "map f X ! i = map Returns r ! i"
      using i i' ph by simp
  qed
qed

lemma reach_owed:
  assumes "reach f X n es s"
  shows "sum_list (map gone (proc s)) + sum_list (map qstop (q_in s)) + owed n (pc s) = nat n"
  using assms
proof (induction rule: reach_induct)
  case init
  show ?case by (simp add: init_def)
next
  case (step es s a e s')
  note upd = sum_list_map_update [where g = gone and ws = "proc s"]
  from step.hyps(2) show ?case
  proof (cases rule: step_cases)
    case (get_stop k x qi)
    with upd [of k Terminated] step.IH show ?thesis by simp
  next
    case (get_work k j x qi)
    with upd [of k "Running j x"] step.IH show ?thesis by simp
  next
    case (emit k j x v)
    with upd [of k Idle] step.IH show ?thesis by simp
  next
    case (fail k j x)
    with upd [of k Crashed] step.IH show ?thesis by simp
  qed (use step.IH in simp_all)
qed

lemma reach_fifo:
  assumes "reach f X n es s" and "owed n (pc s) < nat n"
  shows "sum_list (map qidx (q_in s)) = {#}"
  using assms
proof (induction rule: reach_induct)
  case init
  then show ?case by (simp add: init_def)
next
  case (step es s a e s')
  from step.hyps(2) step.IH step.prems show ?case
    by (cases rule: step_cases) (simp_all split: if_splits)
qed

lemma reach_joined:
  assumes "reach f X n es s"
  shows "joined s"
  using assms
proof (induction rule: reach_induct)
  case init
  show ?case by (simp add: joined_def init_def)
next
  case (step es s a e s')
  have keep: "joined (s\<lparr>proc := (proc s)[k := w], q_in := qi, q_out := qo\<rparr>)"
    if "k < length (proc s)" and "\<not> finished (proc s ! k)" for k w qi qo
    using step.IH that
    by (cases "pc s") (auto simp: joined_def nth_list_update)
  from step.hyps(2) show ?case
  proof (cases rule: step_cases)
    case (join k)
    with step.IH show ?thesis
      by (auto simp: joined_def finished_def less_Suc_eq)
  next
    case (ret k)
    with step.IH show ?thesis
      by (auto simp: joined_def)
  next
    case (get_stop k x qi)
    with keep [where k = k and w = Terminated and qi = qi and qo = "q_out s"] show ?thesis
      by (simp add: finished_def)
  next
    case (get_work k j x qi)
    with keep [where k = k and w = "Running j x" and qi = qi and qo = "q_out s"] show ?thesis
      by (simp add: finished_def)
  next
    case (emit k j x v)
    with keep [where k = k and w = Idle and qi = "q_in s" and qo = "q_out s @ [(j, v)]"] show ?thesis
      by (simp add: finished_def)
  next
    case (fail k j x)
    with keep [where k = k and w = Crashed and qi = "q_in s" and qo = "q_out s"] show ?thesis
      by (simp add: finished_def)
  qed (use step.IH in \<open>simp_all add: joined_def\<close>)
qed

lemma reach_crashed:
  assumes "reach f X n es s" and "k < length (proc s)" and "proc s ! k = Crashed"
  shows "\<exists>j. By k (Fail j) \<in> set es"
  using assms
proof (induction arbitrary: k rule: reach_induct)
  case init
  then show ?case by (simp add: init_def)
next
  case (step es s a e s')
  from step.hyps(2) step.IH step.prems show ?case
    by (cases rule: step_cases)
       (auto simp: nth_append nth_list_update split: if_splits)
qed

lemma reach_no_fail:
  assumes "reach f X n es s" and "\<forall>x\<in>set X. f x \<noteq> Raises"
  shows "By k (Fail j) \<notin> set es"
proof
  assume "By k (Fail j) \<in> set es"
  with reach_payload [OF assms(1)] have "j < length X" "f (X ! j) = Raises"
    by (auto simp: payload_def)
  with assms(2) show False by (metis nth_mem)
qed

lemma step_fuel:
  assumes "step f X n s a = Some (e, s')"
  shows "fuel X n s' < fuel X n s"
proof -
  note upd = sum_list_map_update [where g = busy and ws = "proc s"]
  from assms show ?thesis
  proof (cases rule: step_cases)
    case (get_stop k x qi)
    with upd [of k Terminated] show ?thesis
      by (cases "pc s") (simp_all add: fuel_def rest_def)
  next
    case (get_work k j x qi)
    with upd [of k "Running j x"] show ?thesis
      by (cases "pc s") (simp_all add: fuel_def rest_def)
  next
    case (emit k j x v)
    with upd [of k Idle] show ?thesis
      by (cases "pc s") (simp_all add: fuel_def rest_def)
  next
    case (fail k j x)
    with upd [of k Crashed] show ?thesis
      by (cases "pc s") (simp_all add: fuel_def rest_def)
  qed (auto simp: fuel_def rest_def)
qed

lemma exec_fuel:
  "exec f X n c sch = Some c' \<Longrightarrow> length sch + fuel X n (snd c') \<le> fuel X n (snd c)"
proof (induction sch arbitrary: c)
  case Nil
  then show ?case by simp
next
  case (Cons a sch)
  then obtain e s' where st: "step f X n (snd c) a = Some (e, s')"
    and ex: "exec f X n (fst c @ [e], s') sch = Some c'"
    by (auto split: option.splits)
  from Cons.IH [OF ex] step_fuel [OF st] show ?case by simp
qed

lemma gone_le: "sum_list (map gone ws) \<le> length ws"
proof (induction ws)
  case Nil
  show ?case by simp
next
  case (Cons w ws)
  then show ?case by (cases w) simp_all
qed

lemma gone_all: "sum_list (map gone ws) = length ws \<Longrightarrow> w \<in> set ws \<Longrightarrow> w = Terminated"
proof (induction ws)
  case Nil
  then show ?case by simp
next
  case (Cons a ws)
  have le: "sum_list (map gone ws) \<le> length ws" by (rule gone_le)
  from Cons.prems(1) le have a: "gone a = 1" and rest: "sum_list (map gone ws) = length ws"
    by (cases a; simp)+
  from a have "a = Terminated" by (cases a) simp_all
  with Cons.IH [OF rest] Cons.prems(2) show ?case by auto
qed

lemma gone_less:
  assumes "sum_list (map gone ws) < length ws"
  obtains k where "k < length ws" and "ws ! k \<noteq> Terminated"
proof -
  have "\<exists>w\<in>set ws. w \<noteq> Terminated"
  proof (rule ccontr)
    assume "\<not> (\<exists>w\<in>set ws. w \<noteq> Terminated)"
    then have "sum_list (map gone ws) = length ws"
      by (induction ws) auto
    with assms show False by simp
  qed
  then show thesis
    using that by (auto simp: in_set_conv_nth)
qed

lemma widx_nonempty:
  assumes "sum_list (map widx ws) \<noteq> {#}"
  obtains k j x where "k < length ws" and "ws ! k = Running j x"
proof -
  from assms have "\<exists>w\<in>set ws. widx w \<noteq> {#}"
    by (induction ws) (auto split: if_splits)
  then obtain w where w: "w \<in> set ws" "widx w \<noteq> {#}" by blast
  have "\<exists>j x. w = Running j x"
    by (cases w) (use w(2) in simp_all)
  with w(1) obtain j x where "Running j x \<in> set ws" by auto
  then show thesis
    using that by (auto simp: in_set_conv_nth)
qed

lemma failed_none: "\<forall>k j. By k (Fail j) \<notin> set es \<Longrightarrow> sum_list (map failed es) = {#}"
proof (induction es)
  case Nil
  show ?case by simp
next
  case (Cons e es)
  then have "failed e = {#}"
    by (cases e rule: failed.cases) auto
  with Cons show ?case by simp
qed

lemma running_enabled:
  assumes "k < length (proc s)" and "proc s ! k = Running j x"
  shows "\<exists>e s'. step f X n s (Worker k) = Some (e, s')"
  using assms by (cases "f x") (simp_all add: step_def worker_step_def)

lemma idle_enabled:
  assumes "k < length (proc s)" and "proc s ! k = Idle" and "q_in s \<noteq> []"
  shows "\<exists>e s'. step f X n s (Worker k) = Some (e, s')"
proof -
  from assms(3) obtain i x qi where "q_in s = (i, x) # qi"
    by (cases "q_in s") auto
  with assms(1,2) show ?thesis
    by (cases i) (simp_all add: step_def worker_step_def)
qed

lemma worker_enabled:
  assumes "reach f X n es s" and "\<forall>x\<in>set X. f x \<noteq> Raises"
    and "k < length (proc s)" and "proc s ! k \<noteq> Terminated" and "q_in s \<noteq> []"
  shows "\<exists>e s'. step f X n s (Worker k) = Some (e, s')"
proof (cases "proc s ! k")
  case Idle
  with assms(3,5) show ?thesis by (simp add: idle_enabled)
next
  case (Running j x)
  with assms(3) show ?thesis by (simp add: running_enabled)
next
  case Terminated
  with assms(4) show ?thesis by simp
next
  case Crashed
  with reach_crashed [OF assms(1,3)] reach_no_fail [OF assms(1,2)] show ?thesis by blast
qed

lemma progress:
  assumes r: "reach f X n es s" and tot: "\<forall>x\<in>set X. f x \<noteq> Raises"
    and np: "1 \<le> n \<or> X = []"
  shows "(\<exists>r. pc s = Returned r) \<or> (\<exists>a e s'. step f X n s a = Some (e, s'))"
proof -
  have ph: "phase X n s" using r by (rule reach_phase)
  have ow: "sum_list (map gone (proc s)) + sum_list (map qstop (q_in s)) + owed n (pc s) = nat n"
    using r by (rule reach_owed)
  have co: "\<exists>e s'. step f X n s Coordinator = Some (e, s')"
    if "\<exists>e s'. parmap_step X n s = Some (e, s')"
    using that by (simp add: step_def)
  show ?thesis
  proof (cases "pc s")
    case (Starting m)
    then have "\<exists>e s'. parmap_step X n s = Some (e, s')"
      by (cases m) (simp_all add: parmap_step_def)
    then show ?thesis using co by blast
  next
    case (Feeding i xs)
    show ?thesis
    proof (cases "xs = [] \<or> q_in s = []")
      case True
      with Feeding have "\<exists>e s'. parmap_step X n s = Some (e, s')"
        by (cases xs) (auto simp: parmap_step_def)
      then show ?thesis using co by blast
    next
      case False
      with ph Feeding have "X \<noteq> []" by (auto simp: phase_def)
      with np ph Feeding have k: "0 < length (proc s)" by (simp add: phase_def)
      from ow Feeding have "sum_list (map gone (proc s)) = 0" by simp
      with k have "proc s ! 0 \<noteq> Terminated"
        by (cases "proc s") auto
      with worker_enabled [OF r tot k] False show ?thesis by blast
    qed
  next
    case (Stopping m)
    show ?thesis
    proof (cases "m = 0 \<or> q_in s = []")
      case True
      with Stopping have "\<exists>e s'. parmap_step X n s = Some (e, s')"
        by (cases m) (auto simp: parmap_step_def)
      then show ?thesis using co by blast
    next
      case False
      with ow ph Stopping have "sum_list (map gone (proc s)) < length (proc s)"
        by (simp add: phase_def)
      then obtain k where "k < length (proc s)" "proc s ! k \<noteq> Terminated"
        by (rule gone_less)
      with worker_enabled [OF r tot] False show ?thesis by blast
    qed
  next
    case (Collecting m)
    show ?thesis
    proof (cases "m = 0 \<or> q_out s \<noteq> []")
      case True
      with Collecting have "\<exists>e s'. parmap_step X n s = Some (e, s')"
        by (cases m; cases "q_out s") (auto simp: parmap_step_def)
      then show ?thesis using co by blast
    next
      case False
      with ph Collecting have less: "length (res s) < length (sent s)" and "X \<noteq> []"
        by (auto simp: phase_def)
      with np Collecting have "owed n (pc s) < nat n" by simp
      with r have q: "sum_list (map qidx (q_in s)) = {#}" by (rule reach_fifo)
      have "sum_list (map failed es) = {#}"
        using reach_no_fail [OF r tot] by (simp add: failed_none)
      with reach_held [OF r] q False
      have "sum_list (map widx (proc s)) + mset (map fst (res s)) = mset [0..<length (sent s)]"
        by (simp add: held_def)
      then have "size (sum_list (map widx (proc s))) + length (res s) = length (sent s)"
        by (metis size_mset size_union length_map length_upt diff_zero)
      with less have "sum_list (map widx (proc s)) \<noteq> {#}" by auto
      then obtain k j x where "k < length (proc s)" "proc s ! k = Running j x"
        by (rule widx_nonempty)
      then show ?thesis using running_enabled by blast
    qed
  next
    case (Joining k)
    show ?thesis
    proof (cases "k < length (proc s) \<and> proc s ! k \<noteq> Terminated \<and> proc s ! k \<noteq> Crashed")
      case False
      with Joining have "\<exists>e s'. parmap_step X n s = Some (e, s')"
        by (auto simp: parmap_step_def)
      then show ?thesis using co by blast
    next
      case True
      then have "sum_list (map gone (proc s)) < length (proc s)"
        using gone_all [of "proc s" "proc s ! k"] gone_le [of "proc s"]
        by (metis le_neq_implies_less nth_mem)
      with ow ph Joining have "q_in s \<noteq> []" by (auto simp: phase_def)
      with worker_enabled [OF r tot] True show ?thesis by blast
    qed
  next
    case (Returned r)
    then show ?thesis by simp
  qed
qed

lemma acts_append: "acts k (es @ es') = acts k es @ acts k es'"
  by (induction k es rule: acts.induct) auto

lemma reach_started:
  assumes "reach f X n es s"
  shows "count_list es Started = length (proc s)"
  using assms
proof (induction rule: reach_induct)
  case init
  show ?case by (simp add: init_def)
next
  case (step es s a e s')
  from step.hyps(2) step.IH show ?case
    by (cases rule: step_cases) simp_all
qed

lemma reach_stops_put:
  assumes "reach f X n es s"
  shows "count_list es (Put (None, None)) + owed n (pc s) = nat n"
  using assms
proof (induction rule: reach_induct)
  case init
  show ?case by (simp add: init_def)
next
  case (step es s a e s')
  from step.hyps(2) step.IH show ?case
    by (cases rule: step_cases) simp_all
qed

lemma reach_stop_items:
  assumes "reach f X n es s"
  shows "(\<forall>x. (None, x) \<in> set (q_in s) \<longrightarrow> x = None) \<and>
    (\<forall>k x. By k (Get (None, x)) \<in> set es \<longrightarrow> x = None)"
  using assms
proof (induction rule: reach_induct)
  case init
  show ?case by (simp add: init_def)
next
  case (step es s a e s')
  from step.hyps(2) step.IH show ?case
    by (cases rule: step_cases) auto
qed

lemma reach_stopped_once:
  assumes "reach f X n es s"
  shows "stopped_once es s"
  using assms
proof (induction rule: reach_induct)
  case init
  show ?case by (simp add: stopped_once_def init_def)
next
  case (step es s a e s')
  from step.hyps(2) show ?case
  proof (cases rule: step_cases)
    case (start m)
    with step.IH show ?thesis
      unfolding stopped_once_def
      by (auto simp: acts_append nth_append less_Suc_eq split: if_splits)
  next
    case (get_stop k x qi)
    moreover from reach_stop_items [OF step.hyps(1)] get_stop have "x = None" by simp
    ultimately show ?thesis using step.IH
      unfolding stopped_once_def
      by (auto simp: acts_append nth_list_update split: if_splits)
  next
    case (get_work k j x qi)
    with step.IH show ?thesis
      unfolding stopped_once_def
      by (auto simp: acts_append nth_list_update split: if_splits)
  next
    case (emit k j x v)
    with step.IH show ?thesis
      unfolding stopped_once_def
      by (auto simp: acts_append nth_list_update split: if_splits)
  next
    case (fail k j x)
    with step.IH show ?thesis
      unfolding stopped_once_def
      by (auto simp: acts_append nth_list_update split: if_splits)
  qed (use step.IH in \<open>simp_all add: stopped_once_def acts_append\<close>)
qed

lemma reach_joined_events:
  assumes "reach f X n es s"
  shows "(\<forall>k. pc s = Joining k \<longrightarrow> (\<forall>j<k. Joined j \<in> set es)) \<and>
    (\<forall>r. pc s = Returned r \<longrightarrow> (\<forall>j<length (proc s). Joined j \<in> set es))"
  using assms
proof (induction rule: reach_induct)
  case init
  show ?case by (simp add: init_def)
next
  case (step es s a e s')
  from step.hyps(2) step.IH show ?case
    by (cases rule: step_cases) (auto simp: less_Suc_eq)
qed

lemma returned_final:
  assumes "reach f X n es s" and "pc s = Returned r"
  shows "step f X n s a = None"
proof (rule ccontr)
  assume "step f X n s a \<noteq> None"
  then obtain e s' where st: "step f X n s a = Some (e, s')" by auto
  from reach_joined [OF assms(1)] assms(2)
  have fin: "\<forall>j<length (proc s). finished (proc s ! j)"
    by (simp add: joined_def)
  from st assms(2) fin show False
    by (cases rule: step_cases) (auto simp: finished_def)
qed

lemma reach_ret_event:
  assumes "reach f X n es s" and "Ret r \<in> set es"
  shows "pc s = Returned r"
  using assms
proof (induction rule: reach_induct)
  case init
  then show ?case by simp
next
  case (step es s a e s')
  show ?case
  proof (cases "Ret r \<in> set es")
    case True
    then have "pc s = Returned r" by (rule step.IH)
    with step.hyps(1) have "step f X n s a = None" by (rule returned_final)
    with step.hyps(2) show ?thesis by simp
  next
    case False
    with step.prems have "e = Ret r" by simp
    with step.hyps(2) show ?thesis
      by (cases rule: step_cases) simp_all
  qed
qed

lemma reach_ret_last:
  assumes "reach f X n es s" and "pc s = Returned r"
  shows "es \<noteq> [] \<and> last es = Ret r"
  using assms
proof (induction rule: reach_induct)
  case init
  then show ?case by (simp add: init_def)
next
  case (step es s a e s')
  have "pc s \<noteq> Returned r"
    using returned_final [OF step.hyps(1)] step.hyps(2) by fastforce
  with step.hyps(2) step.prems show ?case
    by (cases rule: step_cases) simp_all
qed

lemma run_reach: "run f X n sch = Some (es, s) \<Longrightarrow> reach f X n es s"
  unfolding reach_def by blast

lemma completes:
  assumes "reach f X n es s" and "\<forall>x\<in>set X. f x \<noteq> Raises" and "1 \<le> n \<or> X = []"
  shows "\<exists>sch es' s' r. exec f X n (es, s) sch = Some (es', s') \<and> pc s' = Returned r"
  using assms(1)
proof (induction "fuel X n s" arbitrary: es s rule: less_induct)
  case less
  show ?case
  proof (cases "\<exists>r. pc s = Returned r")
    case True
    then obtain r where "pc s = Returned r" ..
    then have "exec f X n (es, s) [] = Some (es, s) \<and> pc s = Returned r" by simp
    then show ?thesis by blast
  next
    case False
    with progress [OF less.prems assms(2,3)]
    obtain a e s1 where st: "step f X n s a = Some (e, s1)" by blast
    then have "fuel X n s1 < fuel X n s" by (rule step_fuel)
    moreover from less.prems st have "reach f X n (es @ [e]) s1" by (rule reach_step)
    ultimately obtain sch es' s' r
      where "exec f X n (es @ [e], s1) sch = Some (es', s')" and "pc s' = Returned r"
      using less.hyps by blast
    with st have "exec f X n (es, s) (a # sch) = Some (es', s') \<and> pc s' = Returned r"
      by simp
    then show ?thesis by blast
  qed
qed

lemma fuel_init: "fuel X n (init n) = 4 * length X + 5 * nat n + 5"
  by (simp add: fuel_def rest_def init_def)

lemma run_bounded:
  assumes "run f X n sch = Some (es, s)"
  shows "length sch \<le> 4 * length X + 5 * nat n + 5"
  using exec_fuel [of f X n "([], init n)" sch "(es, s)"] assms
  by (simp add: run_def fuel_init)

lemma res_indices:
  assumes "reach f X n es s"
  shows "distinct (map fst (res s))"
proof -
  let ?R = "mset (map fst (res s))"
  have "?R \<subseteq># held s + sum_list (map failed es)"
    by (simp add: held_def)
  then have sub: "?R \<subseteq># mset [0..<length (sent s)]"
    by (simp only: reach_held [OF assms])
  have "count ?R a \<le> 1" for a
    using mset_subset_eq_count [OF sub, of a] by (simp add: count_mset_set' split: if_splits)
  then show ?thesis
    unfolding distinct_count_atmost_1
    by (metis count_mset_0_iff le_neq_implies_less less_one)
qed


lemma seq_map_iff: "seq_map f X = Returns r \<longleftrightarrow> map f X = map Returns r"
proof (induction X arbitrary: r)
  case Nil
  show ?case by auto
next
  case (Cons x X)
  show ?case
    by (cases "f x"; cases "seq_map f X"; cases r) (auto simp: Cons.IH [symmetric])
qed

lemma reach_no_workers:
  assumes "reach f X n es s" and "proc s = []"
  shows "q_out s = [] \<and> res s = []"
  using assms
proof (induction rule: reach_induct)
  case init
  show ?case by (simp add: init_def)
next
  case (step es s a e s')
  from step.hyps(2) step.IH step.prems show ?case
    by (cases rule: step_cases) auto
qed

lemma reach_puts:
  assumes "reach f X n es s"
  shows "(\<forall>i x. Put (Some i, x) \<in> set es \<longrightarrow> i < length (sent s)) \<and>
    (\<forall>v. Collected v \<in> set es \<longrightarrow> v \<in> set (res s))"
  using assms
proof (induction rule: reach_induct)
  case init
  show ?case by simp
next
  case (step es s a e s')
  from step.hyps(2) show ?case
  proof (cases rule: step_cases)
    case (feed i x xs)
    moreover from step.hyps(1) have "phase X n s" by (rule reach_phase)
    ultimately show ?thesis using step.IH by (auto simp: phase_def less_Suc_eq)
  qed (use step.IH in auto)
qed

lemma reach_sent_le:
  assumes "reach f X n es s"
  shows "length (sent s) \<le> length X \<and> length (res s) \<le> length X \<and>
    length (proc s) \<le> nat n"
  using reach_phase [OF assms] by (cases "pc s") (simp_all add: phase_def)

lemma reach_empty_acts:
  assumes "reach f [] n es s" and "By k a \<in> set es"
  shows "a = Get (None, None)"
  using assms
proof (induction rule: reach_induct)
  case init
  then show ?case by simp
next
  case (step es s c e s')
  have pl: "payload f [] es s" using step.hyps(1) by (rule reach_payload)
  from step.hyps(2) show ?case
  proof (cases rule: step_cases)
    case (get_stop k' x qi)
    with reach_stop_items [OF step.hyps(1)] have "x = None" by simp
    with get_stop step.IH step.prems show ?thesis by auto
  next
    case (get_work k' j x qi)
    with pl show ?thesis by (auto simp: payload_def)
  next
    case (emit k' j x v)
    then have "Running j x \<in> set (proc s)" by (metis nth_mem)
    with pl show ?thesis by (auto simp: payload_def)
  next
    case (fail k' j x)
    then have "Running j x \<in> set (proc s)" by (metis nth_mem)
    with pl show ?thesis by (auto simp: payload_def)
  qed (use step.IH step.prems in auto)
qed

lemma stop_last:
  assumes "stopped_once es s" and "acts k es = as @ Get (None, None) # bs"
  shows "bs = [] \<and> Get (None, None) \<notin> set as"
proof -
  from assms(2) have "Get (None, None) \<in> set (acts k es)" by simp
  with assms(1) obtain as' where as': "acts k es = as' @ [Get (None, None)]"
    and no: "Get (None, None) \<notin> set as'"
    unfolding stopped_once_def by (metis empty_iff empty_set)
  show ?thesis
  proof (cases bs rule: rev_cases)
    case Nil
    with assms(2) as' no show ?thesis by simp
  next
    case (snoc bs' b)
    with assms(2) as' have "as' @ [Get (None, None)] = (as @ Get (None, None) # bs') @ [b]"
      by simp
    then have "as' = as @ Get (None, None) # bs'" by (simp only: append1_eq_conv)
    with no show ?thesis by simp
  qed
qed

lemma bind_Returns: "bind m k = Returns v \<longleftrightarrow> (\<exists>a. m = Returns a \<and> k a = Returns v)"
  by (cases m) (simp_all add: bind_def)

lemma run_completes:
  assumes "run f X n sch = Some (es, s)" and "\<forall>x\<in>set X. f x \<noteq> Raises"
    and "1 \<le> n \<or> X = []"
  shows "\<exists>sch' es' s' r. run f X n (sch @ sch') = Some (es', s') \<and> pc s' = Returned r"
proof -
  from assms(1) have "reach f X n es s" by (rule run_reach)
  from completes [OF this assms(2,3)] obtain sch' es' s' r
    where "exec f X n (es, s) sch' = Some (es', s')" and "pc s' = Returned r"
    by blast
  with assms(1) have "run f X n (sch @ sch') = Some (es', s') \<and> pc s' = Returned r"
    by (simp add: run_def exec_append)
  then show ?thesis by blast
qed

lemma sentinel_safety:
  assumes "run f X nprocs sch = Some (es, s)"
  shows "count_list es Started \<le> nat nprocs \<and>
    count_list es (Put (None, None)) \<le> nat nprocs \<and>
    (\<forall>k as bs. acts k es = as @ Get (None, None) # bs \<longrightarrow>
       bs = [] \<and> Get (None, None) \<notin> set as \<and> proc s ! k = Terminated) \<and>
    (\<forall>r. pc s = Returned r \<longrightarrow>
       count_list es Started = nat nprocs \<and>
       count_list es (Put (None, None)) = nat nprocs \<and>
       length (proc s) = nat nprocs \<and>
       (\<forall>k<nat nprocs. proc s ! k = Terminated \<and>
          (\<exists>as. acts k es = as @ [Get (None, None)] \<and> Get (None, None) \<notin> set as)) \<and>
       (\<exists>es'. es = es' @ [Ret r] \<and> (\<forall>k<nat nprocs. Joined k \<in> set es')))"
proof -
  from assms(1) have re: "reach f X nprocs es s" by (rule run_reach)
  have so: "stopped_once es s" using re by (rule reach_stopped_once)
  have le1: "count_list es Started \<le> nat nprocs"
    using reach_started [OF re] reach_sent_le [OF re] by simp
  have le2: "count_list es (Put (None, None)) \<le> nat nprocs"
    using reach_stops_put [OF re] by simp
  have last: "bs = [] \<and> Get (None, None) \<notin> set as \<and> proc s ! k = Terminated"
    if "acts k es = as @ Get (None, None) # bs" for k as bs
  proof -
    from that have "Get (None, None) \<in> set (acts k es)" by simp
    with so have "proc s ! k = Terminated"
      unfolding stopped_once_def by (metis empty_iff empty_set)
    with stop_last [OF so that] show ?thesis by simp
  qed
  have ret: "count_list es Started = nat nprocs \<and>
       count_list es (Put (None, None)) = nat nprocs \<and>
       length (proc s) = nat nprocs \<and>
       (\<forall>k<nat nprocs. proc s ! k = Terminated \<and>
          (\<exists>as. acts k es = as @ [Get (None, None)] \<and> Get (None, None) \<notin> set as)) \<and>
       (\<exists>es'. es = es' @ [Ret r] \<and> (\<forall>k<nat nprocs. Joined k \<in> set es'))"
    if p: "pc s = Returned r" for r
  proof -
    from reach_phase [OF re] p
    have ph: "length (proc s) = nat nprocs" "length (res s) = length (sent s)"
      by (simp_all add: phase_def)
    have started: "count_list es Started = nat nprocs"
      using reach_started [OF re] ph by simp
    have puts: "count_list es (Put (None, None)) = nat nprocs"
      using reach_stops_put [OF re] p by simp
    have nofail: "By k (Fail j) \<notin> set es" for k j
      using reach_all_collected(4) [OF re ph(2)] by (rule failed_empty)
    have dead: "proc s ! k = Terminated" if "k < nat nprocs" for k
    proof -
      from reach_joined [OF re] p that ph have "finished (proc s ! k)"
        by (simp add: joined_def)
      moreover have "proc s ! k \<noteq> Crashed"
        using reach_crashed [OF re, of k] that ph nofail by auto
      ultimately show ?thesis by (simp add: finished_def)
    qed
    have once: "\<exists>as. acts k es = as @ [Get (None, None)] \<and> Get (None, None) \<notin> set as"
      if "k < nat nprocs" for k
      using so dead [OF that] that ph
      unfolding stopped_once_def by (auto split: if_splits)
    from reach_ret_last [OF re p] obtain es' where es': "es = es' @ [Ret r]"
      by (metis append_butlast_last_id)
    have "Joined k \<in> set es'" if "k < nat nprocs" for k
    proof -
      from reach_joined_events [OF re] p that ph have "Joined k \<in> set es" by simp
      then show ?thesis unfolding es' by simp
    qed
    with es' have "\<exists>es'. es = es' @ [Ret r] \<and> (\<forall>k<nat nprocs. Joined k \<in> set es')"
      by blast
    with started puts ph(1) dead once show ?thesis by simp
  qed
  from last have last': "\<forall>k as bs. acts k es = as @ Get (None, None) # bs \<longrightarrow>
       bs = [] \<and> Get (None, None) \<notin> set as \<and> proc s ! k = Terminated"
    by blast
  from ret have ret': "\<forall>r. pc s = Returned r \<longrightarrow>
       count_list es Started = nat nprocs \<and>
       count_list es (Put (None, None)) = nat nprocs \<and>
       length (proc s) = nat nprocs \<and>
       (\<forall>k<nat nprocs. proc s ! k = Terminated \<and>
          (\<exists>as. acts k es = as @ [Get (None, None)] \<and> Get (None, None) \<notin> set as)) \<and>
       (\<exists>es'. es = es' @ [Ret r] \<and> (\<forall>k<nat nprocs. Joined k \<in> set es'))"
    by blast
  show ?thesis
    by (rule conjI [OF le1 conjI [OF le2 conjI [OF last' ret']]])
qed


lemma returned_map:
  assumes "reach f X n es s" and "pc s = Returned r" and "\<forall>x\<in>set X. f x = Returns (g x)"
  shows "r = map g X"
proof -
  from assms(1,2) have "map f X = map Returns r" by (rule reach_returned)
  moreover from assms(3) have "map f X = map Returns (map g X)" by simp
  ultimately have "map Returns r = map Returns (map g X)" by simp
  then show ?thesis by (rule map_injective) (simp add: inj_def)
qed

section \<open>The properties of the specification\<close>

text \<open>
  C1.  For every input sequence \<open>X\<close>, every function \<open>f\<close> that returns on the elements of \<open>X\<close>
  and every number of processes \<open>nprocs \<ge> 1\<close>, \<open>parmap(f, X, nprocs)\<close> returns the sequence
  of the \<open>f(X[i])\<close>, of the length of \<open>X\<close>, whatever the order in which the results arrive:
  some schedule returns it; every schedule is at most \<open>4 * len(X) + 5 * nprocs + 5\<close> steps
  long; a schedule that has returned has returned this sequence; and a schedule that has
  not returned can be continued, so no interleaving blocks the call.
\<close>

theorem parmap_correct:
  assumes "1 \<le> nprocs" and "\<forall>x\<in>set X. f x = Returns (g x)"
  shows "(\<exists>sch es s. run f X nprocs sch = Some (es, s) \<and> pc s = Returned (map g X)) \<and>
    (\<forall>sch es s. run f X nprocs sch = Some (es, s) \<longrightarrow>
       length sch \<le> 4 * length X + 5 * nat nprocs + 5 \<and>
       (\<forall>r. pc s = Returned r \<longrightarrow> length r = length X \<and> (\<forall>i<length X. r ! i = g (X ! i))) \<and>
       ((\<exists>r. pc s = Returned r) \<or> (\<exists>a e s'. step f X nprocs s a = Some (e, s'))))"
proof -
  from assms(2) have tot: "\<forall>x\<in>set X. f x \<noteq> Raises" by simp
  have res: "r = map g X" if "reach f X nprocs es s" and "pc s = Returned r" for es s r
  proof -
    from that have "map f X = map Returns r" by (rule reach_returned)
    moreover from assms(2) have "map f X = map Returns (map g X)" by simp
    ultimately have "map Returns r = map Returns (map g X)" by simp
    then show ?thesis by (rule map_injective) (simp add: inj_def)
  qed
  have "\<exists>sch es s r. exec f X nprocs ([], init nprocs) sch = Some (es, s) \<and> pc s = Returned r"
    using reach_init tot assms(1) by (intro completes) simp_all
  then obtain sch es s r where ex: "run f X nprocs sch = Some (es, s)" and "pc s = Returned r"
    by (auto simp: run_def)
  moreover from this have "r = map g X" by (intro res [of es s r] run_reach)
  ultimately have one: "\<exists>sch es s. run f X nprocs sch = Some (es, s) \<and> pc s = Returned (map g X)"
    by blast
  have all: "length sch \<le> 4 * length X + 5 * nat nprocs + 5 \<and>
       (\<forall>r. pc s = Returned r \<longrightarrow> length r = length X \<and> (\<forall>i<length X. r ! i = g (X ! i))) \<and>
       ((\<exists>r. pc s = Returned r) \<or> (\<exists>a e s'. step f X nprocs s a = Some (e, s')))"
    if "run f X nprocs sch = Some (es, s)" for sch es s
  proof (intro conjI allI impI)
    show "length sch \<le> 4 * length X + 5 * nat nprocs + 5"
      using that by (rule run_bounded)
  next
    fix r assume "pc s = Returned r"
    with that have r: "r = map g X" by (intro res [of es s r] run_reach)
    then show "length r = length X" by simp
    fix i assume "i < length X"
    with r show "r ! i = g (X ! i)" by simp
  next
    show "(\<exists>r. pc s = Returned r) \<or> (\<exists>a e s'. step f X nprocs s a = Some (e, s'))"
      using that tot assms(1) by (intro progress [of f X nprocs es s] run_reach) simp_all
  qed
  from one all show ?thesis by blast
qed

theorem parmap_correct_witness:
  "\<exists>es s. run sq [Some 1, Some 2, Some 3] 2 sched0 = Some (es, s) \<and>
     pc s = Returned [1, 4, 9] \<and> length sched0 \<le> 27"
proof -
  let ?X = "[Some 1, Some 2, Some 3] :: nat option list"
  let ?g = "\<lambda>x. case x of None \<Rightarrow> 0 | Some a \<Rightarrow> a * a"
  have tot: "\<forall>x\<in>set ?X. sq x = Returns (?g x)"
    by (simp add: sq_def)
  have "map_option (\<lambda>c. pc (snd c)) (run sq ?X 2 sched0) = Some (Returned [1, 4, 9])"
    by code_simp
  then obtain es s where r: "run sq ?X 2 sched0 = Some (es, s)" and p: "pc s = Returned [1, 4, 9]"
    by auto
  have one: "(1::int) \<le> 2" by simp
  from parmap_correct [of 2 ?X sq ?g, OF one tot] r
  have "length sched0 \<le> 4 * length ?X + 5 * nat 2 + 5"
    by blast
  with r p show ?thesis by simp
qed



text \<open>
  C3.  When \<open>f\<close> raises on some \<open>X[i]\<close>: the process that evaluates it dies without putting
  a result, no result for \<open>i\<close> ever reaches \<open>q_out\<close> or \<open>res\<close>, and no schedule makes
  \<open>parmap\<close> return; since every schedule is finite, the call ends up blocked for good.
\<close>

theorem worker_failure_hangs:
  assumes "i < length X" and "f (X ! i) = Raises"
  shows "fun_step f (Running i (X ! i)) qi qo = Some (Fail i, Crashed, qi, qo) \<and>
    fun_step f Crashed qi qo = None \<and>
    (\<forall>sch es s. run f X nprocs sch = Some (es, s) \<longrightarrow>
       (\<forall>v. (i, v) \<notin> set (q_out s) \<and> (i, v) \<notin> set (res s)) \<and>
       (\<forall>r. pc s \<noteq> Returned r) \<and>
       length sch \<le> 4 * length X + 5 * nat nprocs + 5)"
proof -
  have "(\<forall>v. (i, v) \<notin> set (q_out s) \<and> (i, v) \<notin> set (res s)) \<and> (\<forall>r. pc s \<noteq> Returned r) \<and>
      length sch \<le> 4 * length X + 5 * nat nprocs + 5"
    if run: "run f X nprocs sch = Some (es, s)" for sch es s
  proof (intro conjI allI notI)
    from run have r: "reach f X nprocs es s" by (rule run_reach)
    then have pl: "payload f X es s" by (rule reach_payload)
    {
      fix v assume "(i, v) \<in> set (q_out s)"
      with pl have "f (X ! i) = Returns v" unfolding payload_def by blast
      with assms(2) show False by simp
    next
      fix v assume "(i, v) \<in> set (res s)"
      with pl have "f (X ! i) = Returns v" unfolding payload_def by blast
      with assms(2) show False by simp
    next
      fix r' assume "pc s = Returned r'"
      with r have "map f X = map Returns r'" by (rule reach_returned)
      then have "map f X ! i = map Returns r' ! i" by simp
      moreover from \<open>map f X = map Returns r'\<close> have "length r' = length X"
        by (metis length_map)
      ultimately show False using assms by simp
    }
    show "length sch \<le> 4 * length X + 5 * nat nprocs + 5"
      using run by (rule run_bounded)
  qed
  with assms(2) show ?thesis by simp
qed

theorem worker_failure_hangs_witness:
  "\<exists>es s. run half [Some 4, None] 1 sched_fail = Some (es, s) \<and>
     pc s = Collecting 1 \<and> proc s = [Crashed] \<and> q_out s = [] \<and> res s = [(0, 2)] \<and>
     step half [Some 4, None] 1 s Coordinator = None \<and>
     step half [Some 4, None] 1 s (Worker 0) = None \<and> pc s \<noteq> Returned [2]"
proof -
  let ?X = "[Some 4, None] :: nat option list"
  have "map_option (\<lambda>c. (pc (snd c), proc (snd c), q_out (snd c), res (snd c),
      step half ?X 1 (snd c) Coordinator, step half ?X 1 (snd c) (Worker 0)))
      (run half ?X 1 sched_fail) = Some (Collecting 1, [Crashed], [], [(0, 2)], None, None)"
    by code_simp
  then obtain es s where r: "run half ?X 1 sched_fail = Some (es, s)"
    and p: "pc s = Collecting 1" "proc s = [Crashed]" "q_out s = []" "res s = [(0, 2)]"
      "step half ?X 1 s Coordinator = None" "step half ?X 1 s (Worker 0) = None"
    by auto
  have i: "1 < length ?X" and f: "half (?X ! 1) = Raises"
    by (simp_all add: half_def)
  from worker_failure_hangs [of 1 ?X half "[]" "[]" 1, OF i f] r have "pc s \<noteq> Returned [2]"
    by blast
  with r p show ?thesis by simp
qed

text \<open>
  C4, as amended.  \<open>parmap\<close> does not check its arguments.  With \<open>nprocs < 1\<close> no process
  is ever started and no error is reported: for the empty \<open>X\<close> the call returns \<open>[]\<close>, and
  it returns only then (for a non-empty \<open>X\<close> it never returns).
\<close>

theorem parmap_no_validation:
  assumes "nprocs < 1"
  shows "(\<exists>es s. run f [] nprocs
            [Coordinator, Coordinator, Coordinator, Coordinator, Coordinator] = Some (es, s) \<and>
          pc s = Returned [] \<and> proc s = []) \<and>
    (\<forall>sch es s. run f X nprocs sch = Some (es, s) \<longrightarrow>
       proc s = [] \<and> Started \<notin> set es \<and> (\<forall>r. pc s = Returned r \<longrightarrow> X = [] \<and> r = []))"
proof -
  from assms have n: "nat nprocs = 0" by simp
  have one: "\<exists>es s. run f [] nprocs
      [Coordinator, Coordinator, Coordinator, Coordinator, Coordinator] = Some (es, s) \<and>
      pc s = Returned [] \<and> proc s = []"
    by (simp add: run_def init_def step_def parmap_step_def n)
  have all: "proc s = [] \<and> Started \<notin> set es \<and> (\<forall>r. pc s = Returned r \<longrightarrow> X = [] \<and> r = [])"
    if "run f X nprocs sch = Some (es, s)" for sch es s
  proof -
    from that have r: "reach f X nprocs es s" by (rule run_reach)
    from reach_sent_le [OF r] n have p: "proc s = []" by simp
    with reach_started [OF r] have st: "Started \<notin> set es"
      by (simp add: count_list_0_iff)
    from reach_no_workers [OF r p] have e: "res s = []" by simp
    have "X = [] \<and> r' = []" if "pc s = Returned r'" for r'
      using reach_phase [OF r] that e by (simp add: phase_def)
    with p st show ?thesis by simp
  qed
  from one all show ?thesis by blast
qed

text \<open>With \<open>nprocs = -1\<close> and two elements the caller is blocked at the second \<open>put\<close>, with
  no process to take the first item.\<close>

theorem parmap_no_validation_witness:
  "\<exists>es s. run unit_fun [None, None] (- 1) [Coordinator, Coordinator] = Some (es, s) \<and>
     pc s = Feeding 1 [None] \<and> q_in s = [(Some 0, None)] \<and> proc s = [] \<and>
     step unit_fun [None, None] (- 1) s Coordinator = None \<and>
     step unit_fun [None, None] (- 1) s (Worker 0) = None"
proof -
  let ?X = "[None, None] :: unit option list"
  have "map_option (\<lambda>c. (pc (snd c), q_in (snd c), step unit_fun ?X (- 1) (snd c) Coordinator,
      step unit_fun ?X (- 1) (snd c) (Worker 0)))
      (run unit_fun ?X (- 1) [Coordinator, Coordinator]) =
      Some (Feeding 1 [None], [(Some 0, None)], None, None)"
    by code_simp
  then obtain es s where r: "run unit_fun ?X (- 1) [Coordinator, Coordinator] = Some (es, s)"
    and p: "pc s = Feeding 1 [None]" "q_in s = [(Some 0, None)]"
      "step unit_fun ?X (- 1) s Coordinator = None" "step unit_fun ?X (- 1) s (Worker 0) = None"
    by auto
  have "(- 1 :: int) < 1" by simp
  from parmap_no_validation [OF this, of unit_fun ?X, THEN conjunct2, rule_format, OF r]
  have "proc s = []"
    by simp
  with r p show ?thesis by simp
qed

text \<open>C4 as stated fails: \<open>parmap(f, [], 0)\<close> runs to its \<open>return\<close> and yields \<open>[]\<close>; nothing
  is reported.\<close>

theorem parmap_no_validation_counterexample:
  "run unit_fun [] 0 [Coordinator, Coordinator, Coordinator, Coordinator, Coordinator] =
     Some ([Tau, Tau, Tau, Tau, Ret []],
       \<lparr>pc = Returned [], q_in = [], q_out = [], proc = [], sent = [], res = []\<rparr>)"
  by (simp add: run_def init_def step_def parmap_step_def)

text \<open>
  C5.  In every call of \<open>parmap\<close>, at every moment: at most \<open>nprocs\<close> processes have been
  started and at most \<open>nprocs\<close> items \<open>(None, None)\<close> have been put; a process that has taken
  a \<open>(None, None)\<close> has terminated, that was its last action and it took no other.  When the
  call returns: exactly \<open>nprocs\<close> processes were started and exactly \<open>nprocs\<close> items
  \<open>(None, None)\<close> were put; every process has terminated, having taken exactly one of them;
  and every process was joined before the \<open>return\<close>, which is the last event.  And the call
  does get there: when \<open>f\<close> returns on the elements of \<open>X\<close> and there is a process (or
  \<open>X\<close> is empty), a call that has not returned has a next step, and whatever has happened
  so far can be continued to the \<open>return\<close>, by which exactly \<open>nprocs\<close> items \<open>(None, None)\<close>
  have been put and taken, one by each process.  This holds for every length of \<open>X\<close>, the
  empty one included.
\<close>

theorem sentinel_discipline:
  assumes "run f X nprocs sch = Some (es, s)"
  shows "count_list es Started \<le> nat nprocs \<and>
    count_list es (Put (None, None)) \<le> nat nprocs \<and>
    (\<forall>k as bs. acts k es = as @ Get (None, None) # bs \<longrightarrow>
       bs = [] \<and> Get (None, None) \<notin> set as \<and> proc s ! k = Terminated) \<and>
    (\<forall>r. pc s = Returned r \<longrightarrow>
       count_list es Started = nat nprocs \<and>
       count_list es (Put (None, None)) = nat nprocs \<and>
       length (proc s) = nat nprocs \<and>
       (\<forall>k<nat nprocs. proc s ! k = Terminated \<and>
          (\<exists>as. acts k es = as @ [Get (None, None)] \<and> Get (None, None) \<notin> set as)) \<and>
       (\<exists>es'. es = es' @ [Ret r] \<and> (\<forall>k<nat nprocs. Joined k \<in> set es'))) \<and>
    ((\<forall>x\<in>set X. f x \<noteq> Raises) \<and> (1 \<le> nprocs \<or> X = []) \<longrightarrow>
       ((\<exists>r. pc s = Returned r) \<or> (\<exists>a e s'. step f X nprocs s a = Some (e, s'))) \<and>
       (\<exists>sch' es' s' r. run f X nprocs (sch @ sch') = Some (es', s') \<and> pc s' = Returned r \<and>
          count_list es' Started = nat nprocs \<and>
          count_list es' (Put (None, None)) = nat nprocs \<and>
          length (proc s') = nat nprocs \<and>
          (\<forall>k<nat nprocs. proc s' ! k = Terminated \<and>
             (\<exists>as. acts k es' = as @ [Get (None, None)] \<and> Get (None, None) \<notin> set as))))"
proof -
  note safe = sentinel_safety [OF assms]
  have live: "(\<forall>x\<in>set X. f x \<noteq> Raises) \<and> (1 \<le> nprocs \<or> X = []) \<longrightarrow>
       ((\<exists>r. pc s = Returned r) \<or> (\<exists>a e s'. step f X nprocs s a = Some (e, s'))) \<and>
       (\<exists>sch' es' s' r. run f X nprocs (sch @ sch') = Some (es', s') \<and> pc s' = Returned r \<and>
          count_list es' Started = nat nprocs \<and>
          count_list es' (Put (None, None)) = nat nprocs \<and>
          length (proc s') = nat nprocs \<and>
          (\<forall>k<nat nprocs. proc s' ! k = Terminated \<and>
             (\<exists>as. acts k es' = as @ [Get (None, None)] \<and> Get (None, None) \<notin> set as)))"
  proof
    assume h: "(\<forall>x\<in>set X. f x \<noteq> Raises) \<and> (1 \<le> nprocs \<or> X = [])"
    then have tot: "\<forall>x\<in>set X. f x \<noteq> Raises" and np: "1 \<le> nprocs \<or> X = []"
      by simp_all
    from assms have re: "reach f X nprocs es s" by (rule run_reach)
    have pr: "(\<exists>r. pc s = Returned r) \<or> (\<exists>a e s'. step f X nprocs s a = Some (e, s'))"
      using re tot np by (rule progress)
    from run_completes [OF assms tot np] obtain sch' es' s' r
      where run': "run f X nprocs (sch @ sch') = Some (es', s')" and p': "pc s' = Returned r"
      by blast
    from sentinel_safety [OF run', THEN conjunct2, THEN conjunct2, THEN conjunct2,
        rule_format, OF p']
    have "count_list es' Started = nat nprocs \<and>
        count_list es' (Put (None, None)) = nat nprocs \<and>
        length (proc s') = nat nprocs \<and>
        (\<forall>k<nat nprocs. proc s' ! k = Terminated \<and>
           (\<exists>as. acts k es' = as @ [Get (None, None)] \<and> Get (None, None) \<notin> set as))"
      by simp
    with run' p'
    have "\<exists>sch' es' s' r. run f X nprocs (sch @ sch') = Some (es', s') \<and> pc s' = Returned r \<and>
          count_list es' Started = nat nprocs \<and>
          count_list es' (Put (None, None)) = nat nprocs \<and>
          length (proc s') = nat nprocs \<and>
          (\<forall>k<nat nprocs. proc s' ! k = Terminated \<and>
             (\<exists>as. acts k es' = as @ [Get (None, None)] \<and> Get (None, None) \<notin> set as))"
      by blast
    with pr show "((\<exists>r. pc s = Returned r) \<or> (\<exists>a e s'. step f X nprocs s a = Some (e, s'))) \<and>
       (\<exists>sch' es' s' r. run f X nprocs (sch @ sch') = Some (es', s') \<and> pc s' = Returned r \<and>
          count_list es' Started = nat nprocs \<and>
          count_list es' (Put (None, None)) = nat nprocs \<and>
          length (proc s') = nat nprocs \<and>
          (\<forall>k<nat nprocs. proc s' ! k = Terminated \<and>
             (\<exists>as. acts k es' = as @ [Get (None, None)] \<and> Get (None, None) \<notin> set as)))"
      by (rule conjI)
  qed
  show ?thesis
    by (rule conjI [OF safe [THEN conjunct1]
          conjI [OF safe [THEN conjunct2, THEN conjunct1]
            conjI [OF safe [THEN conjunct2, THEN conjunct2, THEN conjunct1]
              conjI [OF safe [THEN conjunct2, THEN conjunct2, THEN conjunct2] live]]]])
qed

theorem sentinel_discipline_witness:
  "\<exists>es s. run sq [Some 1, Some 2, Some 3] 2 sched0 = Some (es, s) \<and>
     pc s = Returned [1, 4, 9] \<and> count_list es (Put (None, None)) = 2 \<and>
     proc s = [Terminated, Terminated] \<and>
     acts 0 es = [Get (Some 0, Some 1), Emit (0, 1), Get (None, None)] \<and>
     (\<exists>sch' es' s' r. run sq [Some 1, Some 2, Some 3] 2 ([] @ sch') = Some (es', s') \<and>
        pc s' = Returned r \<and> count_list es' (Put (None, None)) = nat 2)"
proof -
  let ?X = "[Some 1, Some 2, Some 3] :: nat option list"
  have "map_option (\<lambda>c. (pc (snd c), proc (snd c), acts 0 (fst c))) (run sq ?X 2 sched0) =
      Some (Returned [1, 4, 9], [Terminated, Terminated],
        [Get (Some 0, Some 1), Emit (0, 1), Get (None, None)])"
    by code_simp
  then obtain es s where r: "run sq ?X 2 sched0 = Some (es, s)"
    and p: "pc s = Returned [1, 4, 9]" "proc s = [Terminated, Terminated]"
      "acts 0 es = [Get (Some 0, Some 1), Emit (0, 1), Get (None, None)]"
    by auto
  from sentinel_discipline [OF r] p(1) have c: "count_list es (Put (None, None)) = 2"
    by simp
  have r0: "run sq ?X 2 [] = Some ([], init 2)"
    by (simp add: run_def)
  have h: "(\<forall>x\<in>set ?X. sq x \<noteq> Raises) \<and> ((1::int) \<le> 2 \<or> ?X = [])"
    by (simp add: sq_def)
  from sentinel_discipline [OF r0, THEN conjunct2, THEN conjunct2, THEN conjunct2,
      THEN conjunct2, rule_format, OF h, THEN conjunct2]
  obtain sch' es' s' r' where "run sq ?X 2 ([] @ sch') = Some (es', s')"
    and "pc s' = Returned r'" and "count_list es' (Put (None, None)) = nat 2"
    by blast
  then have "\<exists>sch' es' s' r. run sq ?X 2 ([] @ sch') = Some (es', s') \<and>
        pc s' = Returned r \<and> count_list es' (Put (None, None)) = nat 2"
    by blast
  with r p c show ?thesis by blast
qed

text \<open>
  C6.  For \<open>X = []\<close>, any \<open>f\<close> and \<open>nprocs \<ge> 1\<close>: no work item is put and no result is
  collected, the processes only ever take \<open>(None, None)\<close> items, the call returns \<open>[]\<close>
  after exactly \<open>nprocs\<close> such items were put, within \<open>5 * nprocs + 5\<close> steps, and it can
  always go on until it has returned.
\<close>

theorem parmap_empty:
  assumes "1 \<le> nprocs"
  shows "(\<exists>sch es s. run f [] nprocs sch = Some (es, s) \<and> pc s = Returned []) \<and>
    (\<forall>sch es s. run f [] nprocs sch = Some (es, s) \<longrightarrow>
       (\<forall>i x. Put (Some i, x) \<notin> set es) \<and> (\<forall>v. Collected v \<notin> set es) \<and>
       (\<forall>k a. By k a \<in> set es \<longrightarrow> a = Get (None, None)) \<and>
       length sch \<le> 5 * nat nprocs + 5 \<and>
       (\<forall>r. pc s = Returned r \<longrightarrow> r = [] \<and> count_list es (Put (None, None)) = nat nprocs) \<and>
       ((\<exists>r. pc s = Returned r) \<or> (\<exists>a e s'. step f [] nprocs s a = Some (e, s'))))"
proof -
  let ?X = "[] :: 'a option list"
  have tot: "\<forall>x\<in>set ?X. f x \<noteq> Raises" by simp
  have all: "(\<forall>i x. Put (Some i, x) \<notin> set es) \<and> (\<forall>v. Collected v \<notin> set es) \<and>
       (\<forall>k a. By k a \<in> set es \<longrightarrow> a = Get (None, None)) \<and>
       length sch \<le> 5 * nat nprocs + 5 \<and>
       (\<forall>r. pc s = Returned r \<longrightarrow> r = [] \<and> count_list es (Put (None, None)) = nat nprocs) \<and>
       ((\<exists>r. pc s = Returned r) \<or> (\<exists>a e s'. step f [] nprocs s a = Some (e, s')))"
    if run: "run f ?X nprocs sch = Some (es, s)" for sch es s
  proof -
    from run have re: "reach f ?X nprocs es s" by (rule run_reach)
    from reach_sent_le [OF re] have e: "sent s = []" "res s = []" by simp_all
    from reach_puts [OF re] e have a: "\<forall>i x. Put (Some i, x) \<notin> set es"
      and b: "\<forall>v. Collected v \<notin> set es" by auto
    have c: "\<forall>k a. By k a \<in> set es \<longrightarrow> a = Get (None, None)"
      using re by (simp add: reach_empty_acts)
    have d: "length sch \<le> 5 * nat nprocs + 5"
      using run_bounded [OF run] by simp
    have g: "r = [] \<and> count_list es (Put (None, None)) = nat nprocs" if "pc s = Returned r" for r
      using reach_phase [OF re] reach_stops_put [OF re] that e by (simp add: phase_def)
    have h: "(\<exists>r. pc s = Returned r) \<or> (\<exists>a e s'. step f [] nprocs s a = Some (e, s'))"
      using re tot by (rule progress) simp
    from g have g': "\<forall>r. pc s = Returned r \<longrightarrow>
        r = [] \<and> count_list es (Put (None, None)) = nat nprocs"
      by blast
    show ?thesis
      using a b c d g' h by (intro conjI) assumption+
  qed
  have "\<exists>sch es s r. exec f ?X nprocs ([], init nprocs) sch = Some (es, s) \<and> pc s = Returned r"
    using reach_init tot by (rule completes) simp
  then obtain sch es s r where r: "run f ?X nprocs sch = Some (es, s)" and "pc s = Returned r"
    by (auto simp: run_def)
  with all [OF r] have "pc s = Returned []" by simp
  with r have "\<exists>sch es s. run f ?X nprocs sch = Some (es, s) \<and> pc s = Returned []"
    by blast
  moreover from all have "\<forall>sch es s. run f ?X nprocs sch = Some (es, s) \<longrightarrow>
       (\<forall>i x. Put (Some i, x) \<notin> set es) \<and> (\<forall>v. Collected v \<notin> set es) \<and>
       (\<forall>k a. By k a \<in> set es \<longrightarrow> a = Get (None, None)) \<and>
       length sch \<le> 5 * nat nprocs + 5 \<and>
       (\<forall>r. pc s = Returned r \<longrightarrow> r = [] \<and> count_list es (Put (None, None)) = nat nprocs) \<and>
       ((\<exists>r. pc s = Returned r) \<or> (\<exists>a e s'. step f [] nprocs s a = Some (e, s')))"
    by (intro allI impI)
  ultimately show ?thesis by (rule conjI)
qed

theorem parmap_empty_witness:
  "\<exists>es s. run unit_fun [] 2 [Coordinator, Coordinator, Coordinator, Coordinator, Coordinator,
       Worker 1, Coordinator, Worker 0, Coordinator, Coordinator, Coordinator, Coordinator,
       Coordinator] = Some (es, s) \<and>
     pc s = Returned [] \<and> count_list es (Put (None, None)) = 2 \<and> length es = 13"
proof -
  let ?sch = "[Coordinator, Coordinator, Coordinator, Coordinator, Coordinator,
       Worker 1, Coordinator, Worker 0, Coordinator, Coordinator, Coordinator, Coordinator,
       Coordinator]"
  have "map_option (\<lambda>c. (pc (snd c), length (fst c))) (run unit_fun [] 2 ?sch) =
      Some (Returned [], 13)"
    by code_simp
  then obtain es s where r: "run unit_fun [] 2 ?sch = Some (es, s)"
    and p: "pc s = Returned []" "length es = 13"
    by auto
  have "(1::int) \<le> 2" by simp
  from parmap_empty [OF this, of unit_fun, THEN conjunct2, rule_format, OF r]
  have "\<forall>r. pc s = Returned r \<longrightarrow> r = [] \<and> count_list es (Put (None, None)) = nat 2"
    by simp
  with p(1) have "count_list es (Put (None, None)) = nat 2"
    by simp
  with r p show ?thesis by simp
qed

text \<open>
  C7.  With one process \<open>parmap\<close> yields what the sequential map yields: whenever
  \<^verbatim>\<open>[f(x) for x in X]\<close> is \<open>r\<close>, some schedule of \<open>parmap(f, X, 1)\<close> returns \<open>r\<close> and none
  blocks before the return; and whatever \<open>parmap(f, X, 1)\<close> returns is the value of the
  sequential map.
\<close>

theorem parmap_single_worker:
  "(\<forall>r. seq_map f X = Returns r \<longrightarrow>
      (\<exists>sch es s. run f X 1 sch = Some (es, s) \<and> pc s = Returned r)) \<and>
   (\<forall>sch es s. run f X 1 sch = Some (es, s) \<longrightarrow>
      (\<forall>r. pc s = Returned r \<longrightarrow> seq_map f X = Returns r) \<and>
      (seq_map f X = Raises \<or> (\<exists>r. pc s = Returned r) \<or>
         (\<exists>a e s'. step f X 1 s a = Some (e, s'))))"
proof (intro conjI allI impI)
  fix r assume sm: "seq_map f X = Returns r"
  then have mp: "map f X = map Returns r" by (simp add: seq_map_iff)
  have tot: "\<forall>x\<in>set X. f x \<noteq> Raises"
  proof
    fix x assume "x \<in> set X"
    then have "f x \<in> set (map Returns r)" unfolding mp [symmetric] by simp
    then show "f x \<noteq> Raises" by auto
  qed
  have "\<exists>sch es s r'. exec f X 1 ([], init 1) sch = Some (es, s) \<and> pc s = Returned r'"
    using reach_init tot by (intro completes) simp_all
  then obtain sch es s r' where ex: "run f X 1 sch = Some (es, s)" and p: "pc s = Returned r'"
    by (auto simp: run_def)
  then have "map f X = map Returns r'"
    by (intro reach_returned [of f X 1 es s] run_reach)
  with mp have "map Returns r' = map Returns r" by simp
  then have "r' = r" by (rule map_injective) (simp add: inj_def)
  with ex p show "\<exists>sch es s. run f X 1 sch = Some (es, s) \<and> pc s = Returned r" by blast
next
  fix sch es s r
  assume "run f X 1 sch = Some (es, s)" and "pc s = Returned r"
  then have "map f X = map Returns r"
    by (intro reach_returned [of f X 1 es s] run_reach)
  then show "seq_map f X = Returns r" by (simp add: seq_map_iff)
next
  fix sch es s
  assume run: "run f X 1 sch = Some (es, s)"
  show "seq_map f X = Raises \<or> (\<exists>r. pc s = Returned r) \<or>
      (\<exists>a e s'. step f X 1 s a = Some (e, s'))"
  proof (cases "seq_map f X")
    case Raises
    then show ?thesis by simp
  next
    case (Returns r)
    then have mp: "map f X = map Returns r" by (simp add: seq_map_iff)
    have tot: "\<forall>x\<in>set X. f x \<noteq> Raises"
    proof
      fix x assume "x \<in> set X"
      then have "f x \<in> set (map Returns r)" unfolding mp [symmetric] by simp
      then show "f x \<noteq> Raises" by auto
    qed
    from run tot have "(\<exists>r. pc s = Returned r) \<or> (\<exists>a e s'. step f X 1 s a = Some (e, s'))"
      by (intro progress [of f X 1 es s] run_reach) simp_all
    then show ?thesis by simp
  qed
qed

theorem parmap_single_worker_witness:
  "\<exists>es s. seq_map sq [None, Some 2] = Returns [0, 4] \<and>
     run sq [None, Some 2] 1 sched_one = Some (es, s) \<and> pc s = Returned [0, 4]"
proof -
  let ?X = "[None, Some 2] :: nat option list"
  have "map_option (\<lambda>c. pc (snd c)) (run sq ?X 1 sched_one) = Some (Returned [0, 4])"
    by code_simp
  then obtain es s where r: "run sq ?X 1 sched_one = Some (es, s)" and p: "pc s = Returned [0, 4]"
    by auto
  from parmap_single_worker [of sq ?X] r p have "seq_map sq ?X = Returns [0, 4]"
    by blast
  with r p show ?thesis by simp
qed

text \<open>
  C8.  Two calls of \<open>parmap\<close> with the same \<open>f\<close>, \<open>X\<close> and \<open>nprocs\<close> that both return,
  return the same sequence, whatever their schedules.
\<close>

theorem parmap_deterministic:
  assumes "run f X nprocs sch1 = Some (es1, s1)" and "pc s1 = Returned r1"
    and "run f X nprocs sch2 = Some (es2, s2)" and "pc s2 = Returned r2"
  shows "r1 = r2"
proof -
  from assms(1,2) have "map f X = map Returns r1"
    by (intro reach_returned [of f X nprocs es1 s1] run_reach)
  moreover from assms(3,4) have "map f X = map Returns r2"
    by (intro reach_returned [of f X nprocs es2 s2] run_reach)
  ultimately have "map Returns r1 = map Returns r2" by simp
  then show ?thesis by (rule map_injective) (simp add: inj_def)
qed

theorem parmap_deterministic_witness:
  "\<exists>es1 s1 es2 s2 r. run sq [Some 1, Some 2, Some 3] 2 sched0 = Some (es1, s1) \<and>
     run sq [Some 1, Some 2, Some 3] 2 sched1 = Some (es2, s2) \<and>
     q_order es1 = [1, 2, 0] \<and> q_order es2 = [0, 1, 2] \<and>
     pc s1 = Returned r \<and> pc s2 = Returned r"
proof -
  let ?X = "[Some 1, Some 2, Some 3] :: nat option list"
  have "map_option (\<lambda>c. (q_order (fst c), pc (snd c))) (run sq ?X 2 sched0) =
      Some ([1, 2, 0], Returned [1, 4, 9])"
    by code_simp
  then obtain es1 s1 where r1: "run sq ?X 2 sched0 = Some (es1, s1)"
    and e1: "q_order es1 = [1, 2, 0]" and p1: "pc s1 = Returned [1, 4, 9]"
    by auto
  have "map_option (\<lambda>c. (q_order (fst c), pc (snd c))) (run sq ?X 2 sched1) =
      Some ([0, 1, 2], Returned [1, 4, 9])"
    by code_simp
  then obtain es2 s2 where r2: "run sq ?X 2 sched1 = Some (es2, s2)"
    and e2: "q_order es2 = [0, 1, 2]" and p2: "pc s2 = Returned [1, 4, 9]"
    by auto
  from parmap_deterministic [OF r1 p1 r2 p2] r1 e1 p1 r2 e2 p2 show ?thesis by auto
qed

text \<open>
  C9.  A \<open>None\<close> in \<open>X\<close> is processed like any other element.  A process that takes
  \<open>(i, None)\<close> with an index \<open>i\<close> goes on to evaluate \<open>f(None)\<close>; it terminates on an item
  exactly when the index field is \<open>None\<close>.  In every reachable state each item of \<open>q_in\<close>
  that has an index carries \<open>X\<close> at that index, the processes that have terminated and the
  index-less items in \<open>q_in\<close> are as many as the \<open>(None, None)\<close> the caller has put, and
  the result returned at the position of a \<open>None\<close> in \<open>X\<close> is \<open>f(None)\<close>.  And the call
  does return: when \<open>f\<close> returns on the elements of \<open>X\<close>, \<open>None\<close> among them, and
  \<open>nprocs \<ge> 1\<close>, a call that has not returned has a next step and whatever has happened so
  far can be continued to the \<open>return\<close> of the sequence of the \<open>f(X[i])\<close>, with \<open>f(None)\<close> at
  the positions of the \<open>None\<close>s.
\<close>

theorem none_payload:
  "fun_step f Idle ((Some i, None) # qi) qo = Some (Get (Some i, None), Running i None, qi, qo) \<and>
   ((\<exists>a qi' qo'. fun_step f Idle ((j, x) # qi) qo = Some (a, Terminated, qi', qo')) \<longleftrightarrow> j = None) \<and>
   (\<forall>sch es s. run f X nprocs sch = Some (es, s) \<longrightarrow>
      (\<forall>i x. (Some i, x) \<in> set (q_in s) \<longrightarrow> i < length X \<and> x = X ! i) \<and>
      sum_list (map gone (proc s)) + sum_list (map qstop (q_in s)) =
        count_list es (Put (None, None)) \<and>
      (\<forall>r i. pc s = Returned r \<and> i < length X \<and> X ! i = None \<longrightarrow> f None = Returns (r ! i))) \<and>
   ((\<forall>x\<in>set X. f x = Returns (g x)) \<and> 1 \<le> nprocs \<longrightarrow>
      (\<forall>sch es s. run f X nprocs sch = Some (es, s) \<longrightarrow>
         ((\<exists>r. pc s = Returned r) \<or> (\<exists>a e s'. step f X nprocs s a = Some (e, s'))) \<and>
         (\<exists>sch' es' s'. run f X nprocs (sch @ sch') = Some (es', s') \<and>
            pc s' = Returned (map g X) \<and>
            (\<forall>i<length X. X ! i = None \<longrightarrow> map g X ! i = g None))))"
proof -
  have a: "fun_step f Idle ((Some i, None) # qi) qo =
      Some (Get (Some i, None), Running i None, qi, qo)"
    by simp
  have b: "(\<exists>a qi' qo'. fun_step f Idle ((j, x) # qi) qo = Some (a, Terminated, qi', qo')) \<longleftrightarrow>
      j = None"
    by (cases j) simp_all
  have c: "\<forall>sch es s. run f X nprocs sch = Some (es, s) \<longrightarrow>
      (\<forall>i x. (Some i, x) \<in> set (q_in s) \<longrightarrow> i < length X \<and> x = X ! i) \<and>
      sum_list (map gone (proc s)) + sum_list (map qstop (q_in s)) =
        count_list es (Put (None, None)) \<and>
      (\<forall>r i. pc s = Returned r \<and> i < length X \<and> X ! i = None \<longrightarrow> f None = Returns (r ! i))"
  proof (intro allI impI conjI)
    fix sch es s i x
    assume "run f X nprocs sch = Some (es, s)" and "(Some i, x) \<in> set (q_in s)"
    with reach_payload [of f X nprocs es s] show "i < length X" "x = X ! i"
      unfolding payload_def by (blast dest: run_reach)+
  next
    fix sch es s
    assume "run f X nprocs sch = Some (es, s)"
    then have r: "reach f X nprocs es s" by (rule run_reach)
    show "sum_list (map gone (proc s)) + sum_list (map qstop (q_in s)) =
        count_list es (Put (None, None))"
      using reach_owed [OF r] reach_stops_put [OF r] by simp
  next
    fix sch es s r' i
    assume "run f X nprocs sch = Some (es, s)"
      and h: "pc s = Returned r' \<and> i < length X \<and> X ! i = None"
    then have r: "reach f X nprocs es s" by (simp add: run_reach)
    with h have "map f X = map Returns r'" by (intro reach_returned [of f X nprocs es s]) simp_all
    moreover from this have "length r' = length X" by (metis length_map)
    ultimately have "f (X ! i) = Returns (r' ! i)"
      using h by (metis nth_map)
    with h show "f None = Returns (r' ! i)" by simp
  qed
  have d: "(\<forall>x\<in>set X. f x = Returns (g x)) \<and> 1 \<le> nprocs \<longrightarrow>
      (\<forall>sch es s. run f X nprocs sch = Some (es, s) \<longrightarrow>
         ((\<exists>r. pc s = Returned r) \<or> (\<exists>a e s'. step f X nprocs s a = Some (e, s'))) \<and>
         (\<exists>sch' es' s'. run f X nprocs (sch @ sch') = Some (es', s') \<and>
            pc s' = Returned (map g X) \<and>
            (\<forall>i<length X. X ! i = None \<longrightarrow> map g X ! i = g None)))"
  proof (intro impI allI)
    fix sch es s
    assume h: "(\<forall>x\<in>set X. f x = Returns (g x)) \<and> 1 \<le> nprocs"
      and run: "run f X nprocs sch = Some (es, s)"
    from h have ret: "\<forall>x\<in>set X. f x = Returns (g x)" and np: "1 \<le> nprocs \<or> X = []"
      by simp_all
    from ret have tot: "\<forall>x\<in>set X. f x \<noteq> Raises" by simp
    from run have re: "reach f X nprocs es s" by (rule run_reach)
    have pr: "(\<exists>r. pc s = Returned r) \<or> (\<exists>a e s'. step f X nprocs s a = Some (e, s'))"
      using re tot np by (rule progress)
    from run_completes [OF run tot np] obtain sch' es' s' r
      where run': "run f X nprocs (sch @ sch') = Some (es', s')" and p': "pc s' = Returned r"
      by blast
    from run' have "reach f X nprocs es' s'" by (rule run_reach)
    from returned_map [OF this p' ret] p' have "pc s' = Returned (map g X)" by simp
    moreover have "\<forall>i<length X. X ! i = None \<longrightarrow> map g X ! i = g None"
      by simp
    ultimately
    have "\<exists>sch' es' s'. run f X nprocs (sch @ sch') = Some (es', s') \<and>
            pc s' = Returned (map g X) \<and>
            (\<forall>i<length X. X ! i = None \<longrightarrow> map g X ! i = g None)"
      using run' by blast
    with pr show "((\<exists>r. pc s = Returned r) \<or> (\<exists>a e s'. step f X nprocs s a = Some (e, s'))) \<and>
         (\<exists>sch' es' s'. run f X nprocs (sch @ sch') = Some (es', s') \<and>
            pc s' = Returned (map g X) \<and>
            (\<forall>i<length X. X ! i = None \<longrightarrow> map g X ! i = g None))"
      by (rule conjI)
  qed
  show ?thesis
    by (rule conjI [OF a conjI [OF b conjI [OF c d]]])
qed

theorem none_payload_witness:
  "\<exists>es s. run sq [None, Some 2, None] 1 sched_none = Some (es, s) \<and>
     pc s = Returned [0, 4, 0] \<and>
     By 0 (Get (Some 2, None)) \<in> set es \<and> count_list es (Put (None, None)) = 1 \<and>
     sq None = Returns ([0, 4, 0] ! 2) \<and>
     (\<exists>sch' es' s'. run sq [None, Some 2, None] 1 ([Coordinator] @ sch') = Some (es', s') \<and>
        pc s' = Returned [0, 4, 0])"
proof -
  let ?X = "[None, Some 2, None] :: nat option list"
  let ?g = "\<lambda>x. case x of None \<Rightarrow> 0 | Some a \<Rightarrow> a * a"
  note inst = none_payload [where f = sq and X = ?X and nprocs = 1 and g = ?g and i = 0
      and j = None and x = None and qi = "[]" and qo = "[]"]
  have "map_option (\<lambda>c. (pc (snd c), By 0 (Get (Some 2, None)) \<in> set (fst c),
      count_list (fst c) (Put (None, None))))
      (run sq ?X 1 sched_none) = Some (Returned [0, 4, 0], True, 1)"
    by code_simp
  then obtain es s where r: "run sq ?X 1 sched_none = Some (es, s)"
    and p: "pc s = Returned [0, 4, 0]"
    and e: "By 0 (Get (Some 2, None)) \<in> set es" "count_list es (Put (None, None)) = 1"
    by auto
  have "pc s = Returned [0, 4, 0] \<and> 2 < length ?X \<and> ?X ! 2 = None"
    using p by simp
  with inst [THEN conjunct2, THEN conjunct2, THEN conjunct1, rule_format, OF r,
      THEN conjunct2, THEN conjunct2, rule_format, of "[0, 4, 0]" 2]
  have v: "sq None = Returns ([0, 4, 0] ! 2)"
    by simp
  have h: "(\<forall>x\<in>set ?X. sq x = Returns (?g x)) \<and> (1::int) \<le> 1"
    by (simp add: sq_def)
  have r1: "run sq ?X 1 [Coordinator] =
      Some ([Started], \<lparr>pc = Starting 0, q_in = [], q_out = [], proc = [Idle], sent = [],
        res = []\<rparr>)"
    by (simp add: run_def init_def step_def parmap_step_def)
  from inst [THEN conjunct2, THEN conjunct2, THEN conjunct2, rule_format, OF h r1,
      THEN conjunct2]
  obtain sch' es' s' where "run sq ?X 1 ([Coordinator] @ sch') = Some (es', s')"
    and "pc s' = Returned (map ?g ?X)"
    by blast
  then have "\<exists>sch' es' s'. run sq ?X 1 ([Coordinator] @ sch') = Some (es', s') \<and>
        pc s' = Returned [0, 4, 0]"
    by auto
  with r p e v show ?thesis by blast
qed

text \<open>
  C10.  Whenever \<open>cost_normalization\<close> returns: for \<open>'median'\<close> and \<open>'max'\<close> it returns the
  reference it was given, every other array is as before, and the array it was given holds
  the quotient by the median (the maximum); for \<open>'log'\<close> and \<open>'loglog'\<close> it returns a
  reference to a new array and every array that existed, the argument among them, is as
  before; for any other \<open>norm\<close>, \<open>None\<close> included, it returns the reference it was given
  and the heap is unchanged.  And it does return whenever the numpy calls it makes return:
  for \<open>'median'\<close> and \<open>'max'\<close> the given reference, with the quotient written into its
  array; for \<open>'log'\<close> and \<open>'loglog'\<close> a reference to the last of the arrays allocated
  behind the old heap; for any other \<open>norm\<close> always.
\<close>

theorem cost_normalization_frame:
  assumes "C < length h"
  shows "(\<forall>h' C'. cost_normalization np h C nrm = Returns (h', C') \<longrightarrow>
      (nrm = Some ''median'' \<or> nrm = Some ''max'' \<longrightarrow>
         C' = C \<and> length h' = length h \<and> (\<forall>a<length h. a \<noteq> C \<longrightarrow> h' ! a = h ! a) \<and>
         (\<exists>r. np_idiv np (h ! C) r = Returns (h' ! C) \<and>
            (if nrm = Some ''median'' then np_median np (h ! C) else np_max np (h ! C)) =
              Returns r)) \<and>
      (nrm = Some ''log'' \<or> nrm = Some ''loglog'' \<longrightarrow>
         C' \<noteq> C \<and> length h \<le> C' \<and> C' < length h' \<and> take (length h) h' = h \<and>
         h' ! C = h ! C) \<and>
      (nrm \<noteq> Some ''median'' \<and> nrm \<noteq> Some ''max'' \<and> nrm \<noteq> Some ''log'' \<and>
       nrm \<noteq> Some ''loglog'' \<longrightarrow> h' = h \<and> C' = C)) \<and>
    (\<forall>r c. nrm = Some ''median'' \<and> np_median np (h ! C) = Returns r \<and>
       np_idiv np (h ! C) r = Returns c \<longrightarrow>
       cost_normalization np h C nrm = Returns (h[C := c], C)) \<and>
    (\<forall>r c. nrm = Some ''max'' \<and> np_max np (h ! C) = Returns r \<and>
       np_idiv np (h ! C) r = Returns c \<longrightarrow>
       cost_normalization np h C nrm = Returns (h[C := c], C)) \<and>
    (\<forall>t c. nrm = Some ''log'' \<and> np_add1 np (h ! C) = Returns t \<and> np_log np t = Returns c \<longrightarrow>
       cost_normalization np h C nrm = Returns (h @ [t, c], Suc (length h))) \<and>
    (\<forall>t u w c. nrm = Some ''loglog'' \<and> np_add1 np (h ! C) = Returns t \<and>
       np_log np t = Returns u \<and> np_add1 np u = Returns w \<and> np_log np w = Returns c \<longrightarrow>
       cost_normalization np h C nrm = Returns (h @ [t, u, w, c], length h + 3)) \<and>
    (nrm \<noteq> Some ''median'' \<and> nrm \<noteq> Some ''max'' \<and> nrm \<noteq> Some ''log'' \<and>
     nrm \<noteq> Some ''loglog'' \<longrightarrow> cost_normalization np h C nrm = Returns (h, C))"
proof -
  have frame: "(nrm = Some ''median'' \<or> nrm = Some ''max'' \<longrightarrow>
         C' = C \<and> length h' = length h \<and> (\<forall>a<length h. a \<noteq> C \<longrightarrow> h' ! a = h ! a) \<and>
         (\<exists>r. np_idiv np (h ! C) r = Returns (h' ! C) \<and>
            (if nrm = Some ''median'' then np_median np (h ! C) else np_max np (h ! C)) =
              Returns r)) \<and>
      (nrm = Some ''log'' \<or> nrm = Some ''loglog'' \<longrightarrow>
         C' \<noteq> C \<and> length h \<le> C' \<and> C' < length h' \<and> take (length h) h' = h \<and>
         h' ! C = h ! C) \<and>
      (nrm \<noteq> Some ''median'' \<and> nrm \<noteq> Some ''max'' \<and> nrm \<noteq> Some ''log'' \<and>
       nrm \<noteq> Some ''loglog'' \<longrightarrow> h' = h \<and> C' = C)"
    if ret: "cost_normalization np h C nrm = Returns (h', C')" for h' C'
  proof -
    have inplace: "nrm = Some ''median'' \<or> nrm = Some ''max'' \<longrightarrow>
         C' = C \<and> length h' = length h \<and> (\<forall>a<length h. a \<noteq> C \<longrightarrow> h' ! a = h ! a) \<and>
         (\<exists>r. np_idiv np (h ! C) r = Returns (h' ! C) \<and>
            (if nrm = Some ''median'' then np_median np (h ! C) else np_max np (h ! C)) =
              Returns r)"
    proof
      assume k: "nrm = Some ''median'' \<or> nrm = Some ''max''"
      let ?m = "if nrm = Some ''median'' then np_median np (h ! C) else np_max np (h ! C)"
      from k ret
      have "bind ?m (\<lambda>m. bind (np_idiv np (h ! C) m) (\<lambda>c. Returns (h[C := c], C))) =
          Returns (h', C')"
        by (auto simp: cost_normalization_def)
      then obtain r c where r: "?m = Returns r" and c: "np_idiv np (h ! C) r = Returns c"
        and h': "h' = h[C := c]" "C' = C"
        by (auto simp: bind_Returns)
      from h' assms have "C' = C \<and> length h' = length h \<and>
          (\<forall>a<length h. a \<noteq> C \<longrightarrow> h' ! a = h ! a) \<and> h' ! C = c"
        by simp
      with r c show "C' = C \<and> length h' = length h \<and>
          (\<forall>a<length h. a \<noteq> C \<longrightarrow> h' ! a = h ! a) \<and>
          (\<exists>r. np_idiv np (h ! C) r = Returns (h' ! C) \<and>
            (if nrm = Some ''median'' then np_median np (h ! C) else np_max np (h ! C)) =
              Returns r)"
        by blast
    qed
    have fresh: "nrm = Some ''log'' \<or> nrm = Some ''loglog'' \<longrightarrow>
         C' \<noteq> C \<and> length h \<le> C' \<and> C' < length h' \<and> take (length h) h' = h \<and>
         h' ! C = h ! C"
      using assms ret by (auto simp: cost_normalization_def bind_Returns nth_append)
    have other: "nrm \<noteq> Some ''median'' \<and> nrm \<noteq> Some ''max'' \<and> nrm \<noteq> Some ''log'' \<and>
       nrm \<noteq> Some ''loglog'' \<longrightarrow> h' = h \<and> C' = C"
      using ret by (auto simp: cost_normalization_def)
    show ?thesis
      by (rule conjI [OF inplace conjI [OF fresh other]])
  qed
  then have frame': "\<forall>h' C'. cost_normalization np h C nrm = Returns (h', C') \<longrightarrow>
      (nrm = Some ''median'' \<or> nrm = Some ''max'' \<longrightarrow>
         C' = C \<and> length h' = length h \<and> (\<forall>a<length h. a \<noteq> C \<longrightarrow> h' ! a = h ! a) \<and>
         (\<exists>r. np_idiv np (h ! C) r = Returns (h' ! C) \<and>
            (if nrm = Some ''median'' then np_median np (h ! C) else np_max np (h ! C)) =
              Returns r)) \<and>
      (nrm = Some ''log'' \<or> nrm = Some ''loglog'' \<longrightarrow>
         C' \<noteq> C \<and> length h \<le> C' \<and> C' < length h' \<and> take (length h) h' = h \<and>
         h' ! C = h ! C) \<and>
      (nrm \<noteq> Some ''median'' \<and> nrm \<noteq> Some ''max'' \<and> nrm \<noteq> Some ''log'' \<and>
       nrm \<noteq> Some ''loglog'' \<longrightarrow> h' = h \<and> C' = C)"
    by (intro allI impI)
  have med: "\<forall>r c. nrm = Some ''median'' \<and> np_median np (h ! C) = Returns r \<and>
       np_idiv np (h ! C) r = Returns c \<longrightarrow>
       cost_normalization np h C nrm = Returns (h[C := c], C)"
    by (simp add: cost_normalization_def bind_def)
  have mx: "\<forall>r c. nrm = Some ''max'' \<and> np_max np (h ! C) = Returns r \<and>
       np_idiv np (h ! C) r = Returns c \<longrightarrow>
       cost_normalization np h C nrm = Returns (h[C := c], C)"
    by (simp add: cost_normalization_def bind_def)
  have lg: "\<forall>t c. nrm = Some ''log'' \<and> np_add1 np (h ! C) = Returns t \<and>
       np_log np t = Returns c \<longrightarrow>
       cost_normalization np h C nrm = Returns (h @ [t, c], Suc (length h))"
    by (simp add: cost_normalization_def bind_def)
  have lglg: "\<forall>t u w c. nrm = Some ''loglog'' \<and> np_add1 np (h ! C) = Returns t \<and>
       np_log np t = Returns u \<and> np_add1 np u = Returns w \<and> np_log np w = Returns c \<longrightarrow>
       cost_normalization np h C nrm = Returns (h @ [t, u, w, c], length h + 3)"
    by (simp add: cost_normalization_def bind_def)
  have oth: "nrm \<noteq> Some ''median'' \<and> nrm \<noteq> Some ''max'' \<and> nrm \<noteq> Some ''log'' \<and>
     nrm \<noteq> Some ''loglog'' \<longrightarrow> cost_normalization np h C nrm = Returns (h, C)"
    by (simp add: cost_normalization_def)
  show ?thesis
    by (rule conjI [OF frame' conjI [OF med conjI [OF mx conjI [OF lg conjI [OF lglg oth]]]]])
qed

theorem cost_normalization_frame_witness:
  "cost_normalization exact_numpy [[7], [6, 2, 4]] 1 (Some ''median'') =
     Returns ([[7], [3 / 2, 1 / 2, 1]], 1) \<and>
   cost_normalization exact_numpy [[7], [6, 2, 4]] 1 (Some ''max'') =
     Returns ([[7], [1, 1 / 3, 2 / 3]], 1) \<and>
   cost_normalization exact_numpy [[7], [0]] 1 (Some ''log'') =
     Returns ([[7], [0], [1], [0]], 3) \<and>
   cost_normalization exact_numpy [[7], [0]] 1 (Some ''loglog'') =
     Returns ([[7], [0], [1], [0], [1], [0]], 5) \<and>
   cost_normalization exact_numpy [[7], [0]] 1 None = Returns ([[7], [0]], 1) \<and>
   cost_normalization exact_numpy [[7], [0]] 1 (Some ''sqrt'') = Returns ([[7], [0]], 1)"
proof -
  let ?h = "[[7], [6, 2, 4]] :: real list list" and ?k = "[[7], [0]] :: real list list"
  have lh: "(1::nat) < length ?h" and lk: "(1::nat) < length ?k" by simp_all
  note at_h = cost_normalization_frame [OF lh, where np = exact_numpy]
  note at_k = cost_normalization_frame [OF lk, where np = exact_numpy]
  have a: "cost_normalization exact_numpy ?h 1 (Some ''median'') =
      Returns ([[7], [3 / 2, 1 / 2, 1]], 1)"
    using at_h [where nrm = "Some ''median''", THEN conjunct2, THEN conjunct1, rule_format,
        of 4 "[3 / 2, 1 / 2, 1]"]
    by (simp add: exact_numpy_def exact_median_def)
  have b: "cost_normalization exact_numpy ?h 1 (Some ''max'') =
      Returns ([[7], [1, 1 / 3, 2 / 3]], 1)"
    using at_h [where nrm = "Some ''max''", THEN conjunct2, THEN conjunct2, THEN conjunct1,
        rule_format, of 6 "[1, 1 / 3, 2 / 3]"]
    by (simp add: exact_numpy_def)
  have c: "cost_normalization exact_numpy ?k 1 (Some ''log'') =
      Returns ([[7], [0], [1], [0]], 3)"
    using at_k [where nrm = "Some ''log''", THEN conjunct2, THEN conjunct2, THEN conjunct2,
        THEN conjunct1, rule_format, of "[1]" "[0]"]
    by (simp add: exact_numpy_def)
  have d: "cost_normalization exact_numpy ?k 1 (Some ''loglog'') =
      Returns ([[7], [0], [1], [0], [1], [0]], 5)"
    using at_k [where nrm = "Some ''loglog''", THEN conjunct2, THEN conjunct2, THEN conjunct2,
        THEN conjunct2, THEN conjunct1, rule_format, of "[1]" "[0]" "[1]" "[0]"]
    by (simp add: exact_numpy_def)
  have e: "cost_normalization exact_numpy ?k 1 None = Returns (?k, 1)"
    using at_k [where nrm = None, THEN conjunct2, THEN conjunct2, THEN conjunct2,
        THEN conjunct2, THEN conjunct2]
    by simp
  have f: "cost_normalization exact_numpy ?k 1 (Some ''sqrt'') = Returns (?k, 1)"
    using at_k [where nrm = "Some ''sqrt''", THEN conjunct2, THEN conjunct2, THEN conjunct2,
        THEN conjunct2, THEN conjunct2]
    by simp
  from a b c d e f show ?thesis by simp
qed

end
